theory Spec2Isabelle
  imports Main "HOL-Library.Word"
begin

unbundle bit_operations_syntax

section \<open>Machine state of the LC-3 interpreter (lc3.c)\<close>

text \<open>
  All cells of the machine are \<open>uint16_t\<close>. The C globals \<open>memory\<close>, \<open>reg\<close>,
  \<open>running\<close> and \<open>orig_tio\<close> become fields of one record that every function takes
  and returns. The host the process talks to is part of the same record:
  \<^item> \<open>fd_in\<close>: the bytes that wait on the descriptor of standard input, which is
    what \<open>select\<close> looks at; \<open>fd_eof\<close>: whether the descriptor is at end of input
    once these bytes are taken (\<open>select\<close> then reports it readable and \<open>read\<close>
    returns nothing);
  \<^item> \<open>stdin_buf\<close>: the bytes the C library has already read from the descriptor
    into the buffer of the stream \<open>stdin\<close> and \<open>getchar\<close> has not returned yet. The
    program never calls \<open>setvbuf\<close>, so \<open>getchar\<close> on an empty buffer reads all
    that waits on the descriptor, up to \<open>BUFSIZ\<close> bytes, and returns the first. With
    nothing to read and no end of input it waits; no byte arrives later in this
    model, so such a call does not return. Read errors are outside the model;
  \<^item> \<open>stdout\<close>: the bytes written so far (every write of the program is followed by
    \<open>fflush\<close>, so buffering is not modelled);
  \<^item> \<open>tio\<close>: the terminal's current \<open>ICANON\<close> and \<open>ECHO\<close> flags;
  \<^item> \<open>input_calls\<close>: how often the program has called a host input primitive
    (\<open>select\<close> on standard input in \<open>check_key\<close>, or \<open>getchar\<close>). It is not
    a variable of the program; it records the program's use of the input channel.
\<close>

type_synonym u16 = "16 word"
type_synonym byte = "8 word"

abbreviation (input) MAX_MEMORY :: nat where "MAX_MEMORY \<equiv> 65536"

abbreviation (input) R_R0 :: u16 where "R_R0 \<equiv> 0"
abbreviation (input) R_R7 :: u16 where "R_R7 \<equiv> 7"
abbreviation (input) R_PC :: u16 where "R_PC \<equiv> 8"
abbreviation (input) R_COND :: u16 where "R_COND \<equiv> 9"

abbreviation (input) FL_POS :: u16 where "FL_POS \<equiv> 1"
abbreviation (input) FL_ZRO :: u16 where "FL_ZRO \<equiv> 2"
abbreviation (input) FL_NEG :: u16 where "FL_NEG \<equiv> 4"

text \<open>
  The size of the stream buffer and the value of \<open>EOF\<close> belong to the C library; the
  values of glibc are taken. Nothing below needs more of \<open>BUFSIZ\<close> than that it is
  at least 2.
\<close>

abbreviation (input) BUFSIZ :: nat where "BUFSIZ \<equiv> 4096"
abbreviation (input) EOF :: int where "EOF \<equiv> - 1"

abbreviation (input) MR_KBSR :: u16 where "MR_KBSR \<equiv> 0xFE00"
abbreviation (input) MR_KBDR :: u16 where "MR_KBDR \<equiv> 0xFE02"

record termios =
  icanon :: bool
  echo :: bool

record vm =
  memory :: "u16 \<Rightarrow> u16"
  reg :: "u16 \<Rightarrow> u16"
  running :: bool
  orig_tio :: termios
  fd_in :: "byte list"
  fd_eof :: bool
  stdin_buf :: "byte list"
  stdout :: "byte list"
  tio :: termios
  input_calls :: nat

text \<open>
  A call that does not hand control back with a next state: \<open>abort()\<close>, a blocking
  read that waits for input that never comes, a string loop that runs past the end of
  the \<open>memory\<close> array, or the loader using an origin it never read (both undefined
  in C). The state at that moment is kept.
\<close>

datatype fault = Abort | Blocked | OutOfBounds | Uninitialised

type_synonym 'a res = "(fault \<times> vm) + ('a \<times> vm)"

subsection \<open>Host primitives\<close>

definition check_key :: "vm \<Rightarrow> bool \<times> vm" where
  "check_key s = (fd_eof s \<or> fd_in s \<noteq> [], s\<lparr>input_calls := input_calls s + 1\<rparr>)"

definition getchar :: "vm \<Rightarrow> int res" where
  "getchar s =
     (let s1 = s\<lparr>input_calls := input_calls s + 1\<rparr> in
      case stdin_buf s1 of
        b # bs \<Rightarrow> Inr (uint b, s1\<lparr>stdin_buf := bs\<rparr>)
      | [] \<Rightarrow>
          (case take BUFSIZ (fd_in s1) of
             b # bs \<Rightarrow>
               Inr (uint b, s1\<lparr>fd_in := drop BUFSIZ (fd_in s1), stdin_buf := bs\<rparr>)
           | [] \<Rightarrow> if fd_eof s1 then Inr (EOF, s1) else Inl (Blocked, s1)))"

definition putc :: "byte \<Rightarrow> vm \<Rightarrow> vm" where
  "putc c s = s\<lparr>stdout := stdout s @ [c]\<rparr>"

subsection \<open>Memory interface\<close>

definition mem_write :: "u16 \<Rightarrow> u16 \<Rightarrow> vm \<Rightarrow> vm" where
  "mem_write address val s = s\<lparr>memory := (memory s)(address := val)\<rparr>"

definition mem_read :: "u16 \<Rightarrow> vm \<Rightarrow> u16 res" where
  "mem_read address s =
     (if address = MR_KBSR then
        (case check_key s of
           (True, s1) \<Rightarrow>
             (let s2 = s1\<lparr>memory := (memory s1)(MR_KBSR := push_bit 15 1)\<rparr> in
              case getchar s2 of
                Inl e \<Rightarrow> Inl e
              | Inr (c, s3) \<Rightarrow>
                  (let s4 = s3\<lparr>memory := (memory s3)(MR_KBDR := word_of_int c)\<rparr>
                   in Inr (memory s4 address, s4)))
         | (False, s1) \<Rightarrow>
             (let s2 = s1\<lparr>memory := (memory s1)(MR_KBSR := 0)\<rparr>
              in Inr (memory s2 address, s2)))
      else Inr (memory s address, s))"

subsection \<open>Bit utilities\<close>

text \<open>
  The test of \<open>sign_extend\<close> is written \<open>(x >> (bit_count - 1)) & 1 == 1\<close>, which C
  parses as \<open>(x >> (bit_count - 1)) & (1 == 1)\<close>; the comparison is the integer 1.
  \<open>0xFFFF << bit_count\<close> is computed in \<open>int\<close> and stored back into 16 bits; for
  \<open>bit_count = 16\<close> the model takes the low 16 bits of the shifted value, which are
  zero. The callers pass 5, 6, 9 and 11; \<open>bit_count = 0\<close> (a shift by -1 in C) is not
  meant.
\<close>

definition sign_extend :: "u16 \<Rightarrow> nat \<Rightarrow> u16" where
  "sign_extend x bit_count =
     (if drop_bit (bit_count - 1) x AND of_bool ((1::int) = 1) \<noteq> 0
      then x OR push_bit bit_count 0xFFFF
      else x)"

definition update_condition_flags :: "u16 \<Rightarrow> vm \<Rightarrow> vm" where
  "update_condition_flags r s =
     (if reg s r = 0 then s\<lparr>reg := (reg s)(R_COND := FL_ZRO)\<rparr>
      else if drop_bit 15 (reg s r) \<noteq> 0 then s\<lparr>reg := (reg s)(R_COND := FL_NEG)\<rparr>
      else s\<lparr>reg := (reg s)(R_COND := FL_POS)\<rparr>)"

definition swap16 :: "u16 \<Rightarrow> u16" where
  "swap16 x = push_bit 8 x OR drop_bit 8 x"

subsection \<open>Instruction handlers\<close>

definition op_add :: "u16 \<Rightarrow> vm \<Rightarrow> vm" where
  "op_add instr s =
     (let dr = drop_bit 9 instr AND 0x7;
          sr1 = drop_bit 6 instr AND 0x7;
          imm_flag = drop_bit 5 instr AND 0x1;
          s1 = (if imm_flag \<noteq> 0 then
                  (let imm5 = sign_extend (instr AND 0x1F) 5
                   in s\<lparr>reg := (reg s)(dr := reg s sr1 + imm5)\<rparr>)
                else
                  (let sr2 = instr AND 0x7
                   in s\<lparr>reg := (reg s)(dr := reg s sr1 + reg s sr2)\<rparr>))
      in update_condition_flags dr s1)"

definition op_and :: "u16 \<Rightarrow> vm \<Rightarrow> vm" where
  "op_and instr s =
     (let dr = drop_bit 9 instr AND 0x7;
          sr1 = drop_bit 6 instr AND 0x7;
          imm_flag = drop_bit 5 instr AND 0x1;
          s1 = (if imm_flag \<noteq> 0 then
                  (let imm5 = sign_extend (instr AND 0x1F) 5
                   in s\<lparr>reg := (reg s)(dr := reg s sr1 AND imm5)\<rparr>)
                else
                  (let sr2 = instr AND 0x7
                   in s\<lparr>reg := (reg s)(dr := reg s sr1 AND reg s sr2)\<rparr>))
      in update_condition_flags dr s1)"

definition op_not :: "u16 \<Rightarrow> vm \<Rightarrow> vm" where
  "op_not instr s =
     (let dr = drop_bit 9 instr AND 0x7;
          sr = drop_bit 6 instr AND 0x7;
          s1 = s\<lparr>reg := (reg s)(dr := NOT (reg s sr))\<rparr>
      in update_condition_flags dr s1)"

definition op_br :: "u16 \<Rightarrow> vm \<Rightarrow> vm" where
  "op_br instr s =
     (let cond_flag = drop_bit 9 instr AND 0x7;
          pc_offset9 = sign_extend (instr AND 0x1FF) 9
      in if cond_flag AND reg s R_COND \<noteq> 0
         then s\<lparr>reg := (reg s)(R_PC := reg s R_PC + pc_offset9)\<rparr>
         else s)"

definition op_jmp :: "u16 \<Rightarrow> vm \<Rightarrow> vm" where
  "op_jmp instr s =
     (let base = drop_bit 6 instr AND 0x7
      in s\<lparr>reg := (reg s)(R_PC := reg s base)\<rparr>)"

definition op_jsr :: "u16 \<Rightarrow> vm \<Rightarrow> vm" where
  "op_jsr instr s =
     (let s1 = s\<lparr>reg := (reg s)(R_R7 := reg s R_PC)\<rparr>
      in if drop_bit 11 instr AND 0x1 \<noteq> 0 then
           (let pc_offset11 = sign_extend (instr AND 0x7FF) 11
            in s1\<lparr>reg := (reg s1)(R_PC := reg s1 R_PC + pc_offset11)\<rparr>)
         else
           (let base = drop_bit 6 instr AND 0x7
            in s1\<lparr>reg := (reg s1)(R_PC := reg s1 base)\<rparr>))"

definition op_ld :: "u16 \<Rightarrow> vm \<Rightarrow> (fault \<times> vm) + vm" where
  "op_ld instr s =
     (let dr = drop_bit 9 instr AND 0x7;
          pc_offset9 = sign_extend (instr AND 0x1FF) 9
      in case mem_read (reg s R_PC + pc_offset9) s of
           Inl e \<Rightarrow> Inl e
         | Inr (v, s1) \<Rightarrow>
             Inr (update_condition_flags dr (s1\<lparr>reg := (reg s1)(dr := v)\<rparr>)))"

definition op_ldi :: "u16 \<Rightarrow> vm \<Rightarrow> (fault \<times> vm) + vm" where
  "op_ldi instr s =
     (let dr = drop_bit 9 instr AND 0x7;
          pc_offset9 = sign_extend (instr AND 0x1FF) 9
      in case mem_read (reg s R_PC + pc_offset9) s of
           Inl e \<Rightarrow> Inl e
         | Inr (a, s1) \<Rightarrow>
             (case mem_read a s1 of
                Inl e \<Rightarrow> Inl e
              | Inr (v, s2) \<Rightarrow>
                  Inr (update_condition_flags dr (s2\<lparr>reg := (reg s2)(dr := v)\<rparr>))))"

definition op_ldr :: "u16 \<Rightarrow> vm \<Rightarrow> (fault \<times> vm) + vm" where
  "op_ldr instr s =
     (let dr = drop_bit 9 instr AND 0x7;
          base = drop_bit 6 instr AND 0x7;
          offset6 = sign_extend (instr AND 0x3F) 6
      in case mem_read (reg s base + offset6) s of
           Inl e \<Rightarrow> Inl e
         | Inr (v, s1) \<Rightarrow>
             Inr (update_condition_flags dr (s1\<lparr>reg := (reg s1)(dr := v)\<rparr>)))"

definition op_lea :: "u16 \<Rightarrow> vm \<Rightarrow> vm" where
  "op_lea instr s =
     (let dr = drop_bit 9 instr AND 0x7;
          pc_offset9 = sign_extend (instr AND 0x1FF) 9;
          s1 = s\<lparr>reg := (reg s)(dr := reg s R_PC + pc_offset9)\<rparr>
      in update_condition_flags dr s1)"

definition op_st :: "u16 \<Rightarrow> vm \<Rightarrow> vm" where
  "op_st instr s =
     (let sr = drop_bit 9 instr AND 0x7;
          pc_offset9 = sign_extend (instr AND 0x1FF) 9
      in mem_write (reg s R_PC + pc_offset9) (reg s sr) s)"

definition op_sti :: "u16 \<Rightarrow> vm \<Rightarrow> (fault \<times> vm) + vm" where
  "op_sti instr s =
     (let sr = drop_bit 9 instr AND 0x7;
          pc_offset9 = sign_extend (instr AND 0x1FF) 9
      in case mem_read (reg s R_PC + pc_offset9) s of
           Inl e \<Rightarrow> Inl e
         | Inr (a, s1) \<Rightarrow> Inr (mem_write a (reg s1 sr) s1))"

definition op_str :: "u16 \<Rightarrow> vm \<Rightarrow> vm" where
  "op_str instr s =
     (let sr = drop_bit 9 instr AND 0x7;
          base = drop_bit 6 instr AND 0x7;
          offset6 = sign_extend (instr AND 0x3F) 6
      in mem_write (reg s base + offset6) (reg s sr) s)"

subsection \<open>Trap routines\<close>

abbreviation (input) TRAP_GETC :: u16 where "TRAP_GETC \<equiv> 0x20"
abbreviation (input) TRAP_OUT :: u16 where "TRAP_OUT \<equiv> 0x21"
abbreviation (input) TRAP_PUTS :: u16 where "TRAP_PUTS \<equiv> 0x22"
abbreviation (input) TRAP_IN :: u16 where "TRAP_IN \<equiv> 0x23"
abbreviation (input) TRAP_PUTSP :: u16 where "TRAP_PUTSP \<equiv> 0x24"
abbreviation (input) TRAP_HALT :: u16 where "TRAP_HALT \<equiv> 0x25"

definition bytes_of :: "string \<Rightarrow> byte list" where
  "bytes_of cs = map (\<lambda>c. of_nat (of_char c)) cs"

fun put_bytes :: "byte list \<Rightarrow> vm \<Rightarrow> vm" where
  "put_bytes [] s = s"
| "put_bytes (c # cs) s = put_bytes cs (putc c s)"

definition trap_getc :: "vm \<Rightarrow> (fault \<times> vm) + vm" where
  "trap_getc s =
     (case getchar s of
        Inl e \<Rightarrow> Inl e
      | Inr (g, s1) \<Rightarrow>
          (let c = (word_of_int g :: u16) in Inr (s1\<lparr>reg := (reg s1)(R_R0 := c)\<rparr>)))"

definition trap_out :: "vm \<Rightarrow> vm" where
  "trap_out s = putc (ucast (reg s R_R0)) s"

text \<open>
  The pointer \<open>c\<close> of the two string loops is the index of a cell of \<open>memory\<close>. It
  starts at \<open>reg[R_R0]\<close> and is only incremented; reading the cell at index 65536 is
  past the array.
\<close>

function trap_puts_loop :: "nat \<Rightarrow> vm \<Rightarrow> (fault \<times> vm) + vm" where
  "trap_puts_loop c s =
     (if MAX_MEMORY \<le> c then Inl (OutOfBounds, s)
      else if memory s (of_nat c) \<noteq> 0
        then trap_puts_loop (Suc c) (putc (ucast (memory s (of_nat c))) s)
        else Inr s)"
  by pat_completeness auto
termination
  by (relation "measure (\<lambda>(c, s). MAX_MEMORY - c)") auto

declare trap_puts_loop.simps [simp del]

definition trap_puts :: "vm \<Rightarrow> (fault \<times> vm) + vm" where
  "trap_puts s = trap_puts_loop (unat (reg s R_R0)) s"

definition trap_in :: "vm \<Rightarrow> (fault \<times> vm) + vm" where
  "trap_in s =
     (let s1 = put_bytes (bytes_of ''Enter a character: '') s in
      case getchar s1 of
        Inl e \<Rightarrow> Inl e
      | Inr (g, s2) \<Rightarrow>
          (let c = (word_of_int g :: u16);
               s3 = putc (ucast c) s2
           in Inr (s3\<lparr>reg := (reg s3)(R_R0 := c)\<rparr>)))"

function trap_putsp_loop :: "nat \<Rightarrow> vm \<Rightarrow> (fault \<times> vm) + vm" where
  "trap_putsp_loop c s =
     (if MAX_MEMORY \<le> c then Inl (OutOfBounds, s)
      else if memory s (of_nat c) \<noteq> 0 then
        (let fc = (ucast (memory s (of_nat c) AND 0xFF) :: byte);
             sc = (ucast (drop_bit 8 (memory s (of_nat c))) :: byte);
             s1 = putc fc s;
             s2 = (if sc \<noteq> 0 then putc sc s1 else s1)
         in trap_putsp_loop (Suc c) s2)
      else Inr s)"
  by pat_completeness auto
termination
  by (relation "measure (\<lambda>(c, s). MAX_MEMORY - c)") auto

declare trap_putsp_loop.simps [simp del]

definition trap_putsp :: "vm \<Rightarrow> (fault \<times> vm) + vm" where
  "trap_putsp s = trap_putsp_loop (unat (reg s R_R0)) s"

definition trap_halt :: "vm \<Rightarrow> vm" where
  "trap_halt s = (put_bytes (bytes_of ''HALT'' @ [10]) s)\<lparr>running := False\<rparr>"

definition op_trap :: "u16 \<Rightarrow> vm \<Rightarrow> (fault \<times> vm) + vm" where
  "op_trap instr s =
     (let s1 = s\<lparr>reg := (reg s)(R_R7 := reg s R_PC)\<rparr>;
          trapvect8 = instr AND 0xFF
      in if trapvect8 = TRAP_GETC then trap_getc s1
         else if trapvect8 = TRAP_OUT then Inr (trap_out s1)
         else if trapvect8 = TRAP_PUTS then trap_puts s1
         else if trapvect8 = TRAP_IN then trap_in s1
         else if trapvect8 = TRAP_PUTSP then trap_putsp s1
         else if trapvect8 = TRAP_HALT then Inr (trap_halt s1)
         else Inr s1)"

subsection \<open>Image loader\<close>

text \<open>
  A file is the list of its bytes from the current position. \<open>fread\<close> with item size 2
  copies the bytes it gets into the cells from index \<open>p\<close> on, laid out as the host
  does; the host is little-endian, which is what the byte swap of the loader assumes.
  It returns the number of whole items. When the file ends in the middle of an item,
  the C library still copies the odd byte, into the low byte of the next cell.
\<close>

fun fread_words :: "nat \<Rightarrow> nat \<Rightarrow> byte list \<Rightarrow> (u16 \<Rightarrow> u16) \<Rightarrow> nat \<times> (u16 \<Rightarrow> u16)" where
  "fread_words p (Suc n) (b0 # b1 # bs) m =
     (let (r, m1) = fread_words (Suc p) n bs (m(of_nat p := ucast b0 OR push_bit 8 (ucast b1)))
      in (Suc r, m1))"
| "fread_words p (Suc n) [b0] m = (0, m(of_nat p := (m (of_nat p) AND 0xFF00) OR ucast b0))"
| "fread_words p n bs m = (0, m)"

fun swap_loop :: "nat \<Rightarrow> nat \<Rightarrow> (u16 \<Rightarrow> u16) \<Rightarrow> (u16 \<Rightarrow> u16)" where
  "swap_loop p 0 m = m"
| "swap_loop p (Suc n) m = swap_loop (Suc p) n (m(of_nat p := swap16 (m (of_nat p))))"

text \<open>
  The first \<open>fread\<close> reads the origin into a local variable; from a file of fewer than
  two bytes the variable is used without having been read.
\<close>

definition read_image_file :: "byte list \<Rightarrow> vm \<Rightarrow> (fault \<times> vm) + vm" where
  "read_image_file file s =
     (case file of
        b0 # b1 # rest \<Rightarrow>
          (let origin = swap16 (ucast b0 OR push_bit 8 (ucast b1));
               max_read = (of_nat (MAX_MEMORY - unat origin) :: u16);
               p = unat origin;
               (read, m1) = fread_words p (unat max_read) rest (memory s)
           in Inr (s\<lparr>memory := swap_loop p read m1\<rparr>))
      | _ \<Rightarrow> Inl (Uninitialised, s))"

subsection \<open>Terminal adapter\<close>

definition disable_input_buffering :: "vm \<Rightarrow> vm" where
  "disable_input_buffering s =
     (let s1 = s\<lparr>orig_tio := tio s\<rparr>;
          new_tio = (orig_tio s1)\<lparr>icanon := False, echo := False\<rparr>
      in s1\<lparr>tio := new_tio\<rparr>)"

definition restore_input_buffering :: "vm \<Rightarrow> vm" where
  "restore_input_buffering s = s\<lparr>tio := orig_tio s\<rparr>"

subsection \<open>Fetch, decode, dispatch\<close>

abbreviation (input) OP_BR :: u16 where "OP_BR \<equiv> 0"
abbreviation (input) OP_ADD :: u16 where "OP_ADD \<equiv> 1"
abbreviation (input) OP_LD :: u16 where "OP_LD \<equiv> 2"
abbreviation (input) OP_ST :: u16 where "OP_ST \<equiv> 3"
abbreviation (input) OP_JSR :: u16 where "OP_JSR \<equiv> 4"
abbreviation (input) OP_AND :: u16 where "OP_AND \<equiv> 5"
abbreviation (input) OP_LDR :: u16 where "OP_LDR \<equiv> 6"
abbreviation (input) OP_STR :: u16 where "OP_STR \<equiv> 7"
abbreviation (input) OP_RTI :: u16 where "OP_RTI \<equiv> 8"
abbreviation (input) OP_NOT :: u16 where "OP_NOT \<equiv> 9"
abbreviation (input) OP_LDI :: u16 where "OP_LDI \<equiv> 10"
abbreviation (input) OP_STI :: u16 where "OP_STI \<equiv> 11"
abbreviation (input) OP_JMP :: u16 where "OP_JMP \<equiv> 12"
abbreviation (input) OP_RES :: u16 where "OP_RES \<equiv> 13"
abbreviation (input) OP_LEA :: u16 where "OP_LEA \<equiv> 14"
abbreviation (input) OP_TRAP :: u16 where "OP_TRAP \<equiv> 15"

text \<open>The \<open>switch\<close> of the loop in \<open>main\<close>, in the order of its cases.\<close>

definition dispatch :: "u16 \<Rightarrow> vm \<Rightarrow> (fault \<times> vm) + vm" where
  "dispatch instruction s =
     (let opcode = drop_bit 12 instruction
      in if opcode = OP_ADD then Inr (op_add instruction s)
         else if opcode = OP_AND then Inr (op_and instruction s)
         else if opcode = OP_NOT then Inr (op_not instruction s)
         else if opcode = OP_BR then Inr (op_br instruction s)
         else if opcode = OP_JMP then Inr (op_jmp instruction s)
         else if opcode = OP_JSR then Inr (op_jsr instruction s)
         else if opcode = OP_LD then op_ld instruction s
         else if opcode = OP_LDI then op_ldi instruction s
         else if opcode = OP_LDR then op_ldr instruction s
         else if opcode = OP_LEA then Inr (op_lea instruction s)
         else if opcode = OP_ST then Inr (op_st instruction s)
         else if opcode = OP_STI then op_sti instruction s
         else if opcode = OP_STR then Inr (op_str instruction s)
         else if opcode = OP_TRAP then op_trap instruction s
         else Inl (Abort, s))"

text \<open>One iteration of the loop: fetch through \<open>mem_read\<close>, increment \<open>PC\<close>, dispatch.\<close>

definition step :: "vm \<Rightarrow> (fault \<times> vm) + vm" where
  "step s =
     (case mem_read (reg s R_PC) s of
        Inl e \<Rightarrow> Inl e
      | Inr (instruction, s1) \<Rightarrow>
          dispatch instruction (s1\<lparr>reg := (reg s1)(R_PC := reg s1 R_PC + 1)\<rparr>))"

text \<open>
  \<open>while (running)\<close> may run forever, so the loop takes the number of iterations it
  may still make. It stops earlier when \<open>running\<close> is cleared or an iteration faults.
\<close>

fun run :: "nat \<Rightarrow> vm \<Rightarrow> (fault \<times> vm) + vm" where
  "run 0 s = Inr s"
| "run (Suc n) s =
     (if running s then (case step s of Inl e \<Rightarrow> Inl e | Inr s1 \<Rightarrow> run n s1)
      else Inr s)"

text \<open>
  How the process ends: \<open>exit\<close> or return from \<open>main\<close> with a status, a fault inside
  the loop, or still running when the iterations allowed are used up.
\<close>

datatype outcome = Exited int vm | Killed fault vm | Unfinished vm

text \<open>
  \<open>main\<close> gets the arguments after the program name, each a path with the bytes
  of the file there, \<open>None\<close> for a path that \<open>fopen\<close> cannot open, and the state at
  process start.
\<close>

fun read_images :: "(string \<times> byte list option) list \<Rightarrow> vm \<Rightarrow> outcome + vm" where
  "read_images [] s = Inr s"
| "read_images ((path, None) # fs) s =
     Inl (Exited 1 (put_bytes (bytes_of (''failed to load image: '' @ path) @ [10]) s))"
| "read_images ((path, Some file) # fs) s =
     (case read_image_file file s of
        Inl (e, s1) \<Rightarrow> Inl (Killed e s1)
      | Inr s1 \<Rightarrow> read_images fs s1)"

definition main :: "nat \<Rightarrow> (string \<times> byte list option) list \<Rightarrow> vm \<Rightarrow> outcome" where
  "main fuel argv s =
     (if argv = [] then Exited 2 (put_bytes (bytes_of ''lc3 [image-file-1] ...'' @ [10]) s)
      else case read_images argv s of
        Inl out \<Rightarrow> out
      | Inr s1 \<Rightarrow>
          (let s2 = disable_input_buffering s1;
               s3 = s2\<lparr>reg := (reg s2)(R_COND := FL_ZRO)\<rparr>;
               s4 = s3\<lparr>reg := (reg s3)(R_PC := 0x3000)\<rparr>
           in case run fuel s4 of
                Inl (e, s5) \<Rightarrow> Killed e s5
              | Inr s5 \<Rightarrow>
                  if running s5 then Unfinished s5
                  else Exited 0 (restore_input_buffering s5)))"

definition handle_interrupt :: "vm \<Rightarrow> outcome" where
  "handle_interrupt s = Exited (- 2) (putc 10 (restore_input_buffering s))"

text \<open>
  The process image at start: zeroed globals, \<open>running = 1\<close>, a cooked terminal, the
  given bytes waiting on an open descriptor and an empty stream buffer.
\<close>

definition boot :: "byte list \<Rightarrow> vm" where
  "boot input =
     \<lparr>memory = (\<lambda>_. 0), reg = (\<lambda>_. 0), running = True,
      orig_tio = \<lparr>icanon = False, echo = False\<rparr>,
      fd_in = input, fd_eof = False, stdin_buf = [], stdout = [],
      tio = \<lparr>icanon = True, echo = True\<rparr>, input_calls = 0\<rparr>"

section \<open>Reference definitions\<close>

text \<open>
  The condition code that belongs to a 16-bit value read as two's complement, in the
  words of the specification: negative when bit 15 is set, zero when the value is 0,
  positive otherwise.
\<close>

definition cond_of :: "u16 \<Rightarrow> u16" where
  "cond_of v = (if bit v 15 then FL_NEG else if v = 0 then FL_ZRO else FL_POS)"

text \<open>
  What \<open>PUTSP\<close> is to write, in the words of the specification: for each cell from
  the start address up to, and without, the first zero cell, the low byte, then the
  high byte if it is not zero. The cells are looked at up to the end of memory.
\<close>

definition putsp_bytes :: "u16 \<Rightarrow> byte list" where
  "putsp_bytes w =
     (let low = (ucast w :: byte); high = (ucast (drop_bit 8 w) :: byte)
      in if high \<noteq> 0 then [low, high] else [low])"

definition string_cells :: "(u16 \<Rightarrow> u16) \<Rightarrow> nat \<Rightarrow> u16 list" where
  "string_cells m a = takeWhile (\<lambda>w. w \<noteq> 0) (map (\<lambda>i. m (of_nat i)) [a..<MAX_MEMORY])"

definition putsp_output :: "(u16 \<Rightarrow> u16) \<Rightarrow> nat \<Rightarrow> byte list" where
  "putsp_output m a = concat (map putsp_bytes (string_cells m a))"

text \<open>
  Two states are the same machine when they agree on memory, on all registers
  (\<open>PC\<close> and \<open>COND\<close> among them), on the running flag and on the output written so
  far; the pending input (on the descriptor and in the stream buffer, and whether the
  descriptor is at its end), the terminal settings and the count of input calls may
  differ.
  Two results of the loop are the same when both are a state, or both the same fault,
  of the same machine. \<open>calls\<close> is the count of input calls a result ends with.
\<close>

definition same_machine :: "vm \<Rightarrow> vm \<Rightarrow> bool" where
  "same_machine s t =
     (memory s = memory t \<and> reg s = reg t \<and> running s = running t \<and> stdout s = stdout t)"

definition calls :: "(fault \<times> vm) + vm \<Rightarrow> nat" where
  "calls r = (case r of Inl (f, s) \<Rightarrow> input_calls s | Inr s \<Rightarrow> input_calls s)"

definition same_result :: "(fault \<times> vm) + vm \<Rightarrow> (fault \<times> vm) + vm \<Rightarrow> bool" where
  "same_result r1 r2 =
     (case r1 of
        Inl (f, s) \<Rightarrow> (case r2 of Inl (g, t) \<Rightarrow> f = g \<and> same_machine s t | Inr t \<Rightarrow> False)
      | Inr s \<Rightarrow> (case r2 of Inl e \<Rightarrow> False | Inr t \<Rightarrow> same_machine s t))"

text \<open>An example program: \<open>ADD R0, R0, #1\<close> and \<open>HALT\<close> at \<open>0x3000\<close>.\<close>

definition add_halt_program :: "byte list \<Rightarrow> vm" where
  "add_halt_program inp =
     (boot inp)\<lparr>memory := (\<lambda>_. 0)(0x3000 := 0x1021, 0x3001 := 0xF025),
                reg := (\<lambda>_. 0)(R_PC := 0x3000, R_COND := FL_ZRO)\<rparr>"

section \<open>Properties\<close>

subsection \<open>Register selectors\<close>

lemma and7_le: "x AND (7::u16) \<le> 7"
  by (rule word_and_le1)

lemma and7_neq: "x AND (7::u16) \<noteq> 8" "x AND (7::u16) \<noteq> 9"
  using and7_le [of x] by auto

subsection \<open>Sign extension\<close>

lemma sign_extend_eq:
  "sign_extend x n = (if bit x (n - 1) then x OR NOT (mask n) else x)"
proof -
  have "(drop_bit (n - 1) x AND 1 \<noteq> 0) = bit x (n - 1)"
    by (simp add: bit_iff_odd_drop_bit and_one_eq mod2_eq_if)
  moreover have "push_bit n (0xFFFF :: u16) = NOT (mask n)"
  proof -
    have "(0xFFFF :: u16) = - 1" by simp
    then show ?thesis by (simp only: push_bit_minus_one_eq_not_mask)
  qed
  ultimately show ?thesis by (simp add: sign_extend_def)
qed

lemma bit_sign_extend:
  "bit (sign_extend x n) i =
     (if bit x (n - 1) then (bit x i \<or> (n \<le> i \<and> i < 16)) else bit x i)"
  by (auto simp: sign_extend_eq bit_or_iff bit_not_iff bit_mask_iff dest: bit_imp_le_length)

lemma sign_extend_unique_masked:
  assumes "0 < n" "n \<le> 16" "bit x (n - 1) \<or> drop_bit n x = 0"
  shows "(take_bit n y = take_bit n x \<and> (\<forall>i. n \<le> i \<and> i < 16 \<longrightarrow> bit y i = bit x (n - 1)))
           \<longleftrightarrow> y = sign_extend x n"
proof
  assume R: "y = sign_extend x n"
  have hi: "\<not> bit x (n - 1) \<Longrightarrow> n \<le> i \<Longrightarrow> \<not> bit x i" for i
  proof -
    assume a: "\<not> bit x (n - 1)" "n \<le> i"
    with assms have "drop_bit n x = 0" by simp
    then have "\<not> bit (drop_bit n x) (i - n)" by simp
    with a show ?thesis by (simp add: bit_drop_bit_eq)
  qed
  show "take_bit n y = take_bit n x \<and> (\<forall>i. n \<le> i \<and> i < 16 \<longrightarrow> bit y i = bit x (n - 1))"
    unfolding R
    by (auto simp: bit_eq_iff bit_take_bit_iff bit_sign_extend hi)
next
  assume L: "take_bit n y = take_bit n x \<and> (\<forall>i. n \<le> i \<and> i < 16 \<longrightarrow> bit y i = bit x (n - 1))"
  show "y = sign_extend x n"
  proof (rule bit_word_eqI)
    fix i assume "i < LENGTH(16)"
    then have i: "i < 16" by simp
    show "bit y i = bit (sign_extend x n) i"
    proof (cases "i < n")
      case True
      from L have "bit (take_bit n y) i = bit (take_bit n x) i" by simp
      with True have "bit y i = bit x i" by (simp add: bit_take_bit_iff)
      with True show ?thesis by (simp add: bit_sign_extend)
    next
      case False
      with L i have yi: "bit y i = bit x (n - 1)" by simp
      show ?thesis
      proof (cases "bit x (n - 1)")
        case True
        with yi False i show ?thesis by (simp add: bit_sign_extend)
      next
        case nb: False
        with assms have "drop_bit n x = 0" by simp
        then have "\<not> bit (drop_bit n x) (i - n)" by simp
        with False have "\<not> bit x i" by (simp add: bit_drop_bit_eq)
        with yi nb show ?thesis by (simp add: bit_sign_extend)
      qed
    qed
  qed
qed

text \<open>
  Claim C2, as the code has it. For \<open>0 < n \<le> 16\<close>, \<open>sign_extend x n\<close> sets bits
  \<open>n\<close> to 15 when bit \<open>n - 1\<close> of \<open>x\<close> is set, and returns \<open>x\<close> as it is, bits \<open>n\<close>
  to 15 included, when that bit is clear. So for every \<open>x\<close> whose bit \<open>n - 1\<close> is
  set or whose bits \<open>n\<close> to 15 are all zero (every call site passes \<open>x\<close> masked to
  \<open>n\<close> bits), \<open>sign_extend x n\<close> is the one 16-bit value that agrees with \<open>x\<close> on
  the low \<open>n\<close> bits and has bit \<open>n - 1\<close> of \<open>x\<close> in each of the positions \<open>n\<close> to
  15; and for every \<open>x\<close> whose bit \<open>n - 1\<close> is clear the result is \<open>x\<close> itself, so
  bits \<open>n\<close> to 15 are not cleared.
\<close>

theorem sign_extend_unique:
  assumes "0 < n" "n \<le> 16"
  shows "(bit x (n - 1) \<or> drop_bit n x = 0 \<longrightarrow>
            ((take_bit n y = take_bit n x \<and>
              (\<forall>i. n \<le> i \<and> i < 16 \<longrightarrow> bit y i = bit x (n - 1)))
             \<longleftrightarrow> y = sign_extend x n)) \<and>
         (\<not> bit x (n - 1) \<longrightarrow> sign_extend x n = x)"
proof (intro conjI impI)
  assume "bit x (n - 1) \<or> drop_bit n x = 0"
  with assms show "(take_bit n y = take_bit n x \<and>
              (\<forall>i. n \<le> i \<and> i < 16 \<longrightarrow> bit y i = bit x (n - 1)))
             \<longleftrightarrow> y = sign_extend x n"
    by (rule sign_extend_unique_masked)
next
  assume "\<not> bit x (n - 1)"
  then show "sign_extend x n = x" by (simp add: sign_extend_eq)
qed

theorem sign_extend_unique_witness:
  "0 < (5::nat) \<and> (5::nat) \<le> 16 \<and>
   (bit (0x1F :: u16) (5 - 1) \<or> drop_bit 5 (0x1F :: u16) = 0) \<and>
   sign_extend 0x1F 5 = 0xFFFF \<and>
   take_bit 5 (0xFFFF :: u16) = take_bit 5 (0x1F :: u16) \<and>
   bit (0xFFFF :: u16) 5 = bit (0x1F :: u16) (5 - 1) \<and>
   bit (0xFFFF :: u16) 15 = bit (0x1F :: u16) (5 - 1) \<and>
   \<not> bit (0x20 :: u16) (5 - 1) \<and> sign_extend 0x20 5 = 0x20"
proof -
  have h: "bit (0x1F :: u16) (5 - 1) \<or> drop_bit 5 (0x1F :: u16) = 0" by simp
  have e: "sign_extend 0x1F 5 = 0xFFFF" by (simp add: sign_extend_def)
  have c: "\<not> bit (0x20 :: u16) (5 - 1)" by simp
  from sign_extend_unique [of 5 "0x1F" "0xFFFF"] h e
  have 1: "take_bit 5 (0xFFFF :: u16) = take_bit 5 (0x1F :: u16) \<and>
        (\<forall>i. 5 \<le> i \<and> i < 16 \<longrightarrow> bit (0xFFFF :: u16) i = bit (0x1F :: u16) (5 - 1))"
    by simp
  from sign_extend_unique [of 5 "0x20"] c
  have 2: "sign_extend 0x20 5 = 0x20" by simp
  from 1 2 h e c show ?thesis by simp
qed

text \<open>
  The claim as written, for every \<open>x\<close>, fails when bit \<open>n - 1\<close> is clear and a higher
  bit of \<open>x\<close> is set: \<open>sign_extend 0x20 5\<close> is \<open>0x20\<close>, whose bit 5 is 1 while bit 4
  of \<open>x\<close> is 0.
\<close>

theorem sign_extend_unmasked_counterexample:
  "sign_extend 0x20 5 = 0x20 \<and> \<not> (bit (sign_extend 0x20 5) 5 = bit (0x20 :: u16) (5 - 1))"
  by (simp add: sign_extend_def)

subsection \<open>Condition codes\<close>

lemma mem_read_unfold:
  "mem_read a s =
     (if a = MR_KBSR then
        (if fd_eof s \<or> fd_in s \<noteq> [] then
           (case stdin_buf s of
              b # bs \<Rightarrow>
                Inr (0x8000, s\<lparr>memory := (memory s)(MR_KBSR := 0x8000, MR_KBDR := ucast b),
                                stdin_buf := bs, input_calls := input_calls s + 2\<rparr>)
            | [] \<Rightarrow>
                (case fd_in s of
                   b # bs \<Rightarrow>
                     Inr (0x8000, s\<lparr>memory := (memory s)(MR_KBSR := 0x8000, MR_KBDR := ucast b),
                                     fd_in := drop BUFSIZ (b # bs), stdin_buf := take 4095 bs,
                                     input_calls := input_calls s + 2\<rparr>)
                 | [] \<Rightarrow>
                     Inr (0x8000, s\<lparr>memory := (memory s)(MR_KBSR := 0x8000, MR_KBDR := 0xFFFF),
                                     input_calls := input_calls s + 2\<rparr>)))
         else Inr (0, s\<lparr>memory := (memory s)(MR_KBSR := 0),
                         input_calls := input_calls s + 1\<rparr>))
      else Inr (memory s a, s))"
proof -
  have m1: "(- 1 :: u16) = 0xFFFF" by simp
  show ?thesis
    by (auto simp: mem_read_def check_key_def getchar_def Let_def m1 split: list.split)
qed

lemma mem_read_returns:
  "\<exists>v s1. mem_read a s = Inr (v, s1) \<and> reg s1 = reg s \<and> running s1 = running s
      \<and> stdout s1 = stdout s \<and> input_calls s \<le> input_calls s1"
  by (simp add: mem_read_unfold split: list.split)

lemma drop_bit_15: "(drop_bit 15 (v::u16) \<noteq> 0) = bit v 15"
proof -
  have "drop_bit 15 v = 0 \<longleftrightarrow> \<not> bit v 15"
  proof
    assume "drop_bit 15 v = 0"
    then have "\<not> bit (drop_bit 15 v) 0" by simp
    then show "\<not> bit v 15" by (simp add: bit_drop_bit_eq)
  next
    assume n: "\<not> bit v 15"
    show "drop_bit 15 v = 0"
    proof (rule bit_word_eqI)
      fix i assume "i < LENGTH(16)"
      show "bit (drop_bit 15 v) i = bit (0::u16) i"
      proof (cases i)
        case 0 with n show ?thesis by (simp add: bit_drop_bit_eq)
      next
        case (Suc j)
        have "\<not> bit v (15 + Suc j)" by (auto dest: bit_imp_le_length)
        with Suc show ?thesis by (simp add: bit_drop_bit_eq)
      qed
    qed
  qed
  then show ?thesis by simp
qed

lemma flags_after_update:
  "r \<noteq> R_COND \<Longrightarrow>
     reg (update_condition_flags r s) R_COND = cond_of (reg s r) \<and>
     reg (update_condition_flags r s) r = reg s r"
  by (auto simp: update_condition_flags_def cond_of_def drop_bit_15)

lemma flags_consistent:
  "r \<noteq> R_COND \<Longrightarrow>
     reg (update_condition_flags r s) R_COND = cond_of (reg (update_condition_flags r s) r)"
  by (simp add: flags_after_update)

lemma update_condition_flags_frame:
  "memory (update_condition_flags r s) = memory s"
  "running (update_condition_flags r s) = running s"
  "fd_in (update_condition_flags r s) = fd_in s"
  "fd_eof (update_condition_flags r s) = fd_eof s"
  "stdin_buf (update_condition_flags r s) = stdin_buf s"
  "stdout (update_condition_flags r s) = stdout s"
  "input_calls (update_condition_flags r s) = input_calls s"
  by (simp_all add: update_condition_flags_def)

lemma cond_of_cases: "cond_of v \<in> {FL_NEG, FL_ZRO, FL_POS}"
  by (simp add: cond_of_def)

lemma op_add_cond: "reg (op_add i s) R_COND = cond_of (reg (op_add i s) (drop_bit 9 i AND 7))"
  by (simp add: op_add_def Let_def flags_consistent and7_neq)

lemma op_and_cond: "reg (op_and i s) R_COND = cond_of (reg (op_and i s) (drop_bit 9 i AND 7))"
  by (simp add: op_and_def Let_def flags_consistent and7_neq)

lemma op_not_cond: "reg (op_not i s) R_COND = cond_of (reg (op_not i s) (drop_bit 9 i AND 7))"
  by (simp add: op_not_def Let_def flags_consistent and7_neq)

lemma op_lea_cond: "reg (op_lea i s) R_COND = cond_of (reg (op_lea i s) (drop_bit 9 i AND 7))"
  by (simp add: op_lea_def Let_def flags_consistent and7_neq)

lemma op_ld_cond:
  "\<exists>s'. op_ld i s = Inr s' \<and> reg s' R_COND = cond_of (reg s' (drop_bit 9 i AND 7))"
proof -
  obtain v s1 where "mem_read (reg s R_PC + sign_extend (i AND 0x1FF) 9) s = Inr (v, s1)"
    using mem_read_returns by blast
  then show ?thesis
    by (simp add: op_ld_def Let_def flags_consistent and7_neq)
qed

lemma op_ldr_cond:
  "\<exists>s'. op_ldr i s = Inr s' \<and> reg s' R_COND = cond_of (reg s' (drop_bit 9 i AND 7))"
proof -
  obtain v s1 where
    "mem_read (reg s (drop_bit 6 i AND 7) + sign_extend (i AND 0x3F) 6) s = Inr (v, s1)"
    using mem_read_returns by blast
  then show ?thesis
    by (simp add: op_ldr_def Let_def flags_consistent and7_neq)
qed

lemma op_ldi_cond:
  "\<exists>s'. op_ldi i s = Inr s' \<and> reg s' R_COND = cond_of (reg s' (drop_bit 9 i AND 7))"
proof -
  obtain a s1 where 1: "mem_read (reg s R_PC + sign_extend (i AND 0x1FF) 9) s = Inr (a, s1)"
    using mem_read_returns by blast
  obtain v s2 where 2: "mem_read a s1 = Inr (v, s2)"
    using mem_read_returns by blast
  from 1 2 show ?thesis
    by (simp add: op_ldi_def Let_def flags_consistent and7_neq)
qed

lemma putc_frame:
  "reg (putc c s) = reg s" "memory (putc c s) = memory s"
  "running (putc c s) = running s" "input_calls (putc c s) = input_calls s"
  "fd_in (putc c s) = fd_in s" "fd_eof (putc c s) = fd_eof s"
  "stdin_buf (putc c s) = stdin_buf s"
  by (simp_all add: putc_def)

lemma put_bytes_frame:
  "reg (put_bytes cs s) = reg s \<and> memory (put_bytes cs s) = memory s \<and>
   running (put_bytes cs s) = running s \<and> input_calls (put_bytes cs s) = input_calls s \<and>
   fd_in (put_bytes cs s) = fd_in s \<and> fd_eof (put_bytes cs s) = fd_eof s \<and>
   stdin_buf (put_bytes cs s) = stdin_buf s"
  by (induction cs arbitrary: s) (simp_all add: putc_frame)

lemma trap_puts_loop_reg: "trap_puts_loop c s = Inr s' \<Longrightarrow> reg s' = reg s"
proof (induction c s rule: trap_puts_loop.induct)
  case (1 c s)
  from "1.prems" have "\<not> MAX_MEMORY \<le> c"
    by (subst (asm) trap_puts_loop.simps) (simp split: if_splits)
  show ?case
  proof (cases "memory s (of_nat c) \<noteq> 0")
    case True
    with "1.prems" \<open>\<not> MAX_MEMORY \<le> c\<close>
    have "trap_puts_loop (Suc c) (putc (ucast (memory s (of_nat c))) s) = Inr s'"
      by (subst (asm) trap_puts_loop.simps) simp
    with "1.IH" True \<open>\<not> MAX_MEMORY \<le> c\<close> show ?thesis
      by (simp add: putc_frame)
  next
    case False
    with "1.prems" \<open>\<not> MAX_MEMORY \<le> c\<close> show ?thesis
      by (subst (asm) trap_puts_loop.simps) simp
  qed
qed

lemma trap_putsp_loop_reg: "trap_putsp_loop c s = Inr s' \<Longrightarrow> reg s' = reg s"
proof (induction c s rule: trap_putsp_loop.induct)
  case (1 c s)
  let ?fc = "ucast (memory s (of_nat c) AND 0xFF) :: byte"
  let ?sc = "ucast (drop_bit 8 (memory s (of_nat c))) :: byte"
  let ?s2 = "if ?sc \<noteq> 0 then putc ?sc (putc ?fc s) else putc ?fc s"
  from "1.prems" have nb: "\<not> MAX_MEMORY \<le> c"
    by (subst (asm) trap_putsp_loop.simps) (simp split: if_splits)
  show ?case
  proof (cases "memory s (of_nat c) \<noteq> 0")
    case True
    from "1.prems" nb True have "trap_putsp_loop (Suc c) ?s2 = Inr s'"
      by (subst (asm) trap_putsp_loop.simps) (simp add: Let_def split del: if_split)
    with "1.IH" [OF nb True refl refl refl refl] have "reg s' = reg ?s2" by simp
    then show ?thesis by (simp add: putc_frame)
  next
    case False
    with "1.prems" nb show ?thesis
      by (subst (asm) trap_putsp_loop.simps) simp
  qed
qed

lemma getchar_Inr:
  "getchar s = Inr (b, s1) \<Longrightarrow>
     reg s1 = reg s \<and> memory s1 = memory s \<and> running s1 = running s \<and>
     stdout s1 = stdout s \<and> input_calls s1 = input_calls s + 1"
  by (auto simp: getchar_def Let_def split: list.splits if_splits)

lemma trap_getc_cond:
  assumes "trap_getc s = Inr s'"
  shows "reg s' R_COND = reg s R_COND"
proof (cases "getchar s")
  case (Inl e)
  with assms show ?thesis by (simp add: trap_getc_def)
next
  case (Inr p)
  obtain b s1 where p: "p = (b, s1)" by (cases p)
  with Inr have "reg s1 = reg s" by (simp add: getchar_Inr)
  with assms Inr p show ?thesis by (auto simp: trap_getc_def Let_def)
qed

lemma trap_in_cond:
  assumes "trap_in s = Inr s'"
  shows "reg s' R_COND = reg s R_COND"
proof (cases "getchar (put_bytes (bytes_of ''Enter a character: '') s)")
  case (Inl e)
  with assms show ?thesis by (simp add: trap_in_def Let_def)
next
  case (Inr p)
  obtain b s1 where p: "p = (b, s1)" by (cases p)
  with Inr have "reg s1 = reg (put_bytes (bytes_of ''Enter a character: '') s)"
    by (simp add: getchar_Inr)
  then have "reg s1 = reg s" by (simp add: put_bytes_frame)
  with assms Inr p show ?thesis by (auto simp: trap_in_def Let_def putc_frame)
qed

lemma trap_out_cond: "reg (trap_out s) R_COND = reg s R_COND"
  by (simp add: trap_out_def putc_frame)

lemma trap_halt_cond: "reg (trap_halt s) R_COND = reg s R_COND"
  by (simp add: trap_halt_def put_bytes_frame)

lemma trap_puts_cond: "trap_puts s = Inr s' \<Longrightarrow> reg s' R_COND = reg s R_COND"
  by (auto simp: trap_puts_def dest: trap_puts_loop_reg)

lemma trap_putsp_cond: "trap_putsp s = Inr s' \<Longrightarrow> reg s' R_COND = reg s R_COND"
  by (auto simp: trap_putsp_def dest: trap_putsp_loop_reg)

lemma op_trap_cond:
  assumes "op_trap i s = Inr s'"
  shows "reg s' R_COND = reg s R_COND"
proof -
  let ?s1 = "s\<lparr>reg := (reg s)(R_R7 := reg s R_PC)\<rparr>"
  let ?v = "i AND 0xFF"
  have c: "reg ?s1 R_COND = reg s R_COND" by simp
  consider (getc) "?v = TRAP_GETC" | (out) "?v = TRAP_OUT" | (puts) "?v = TRAP_PUTS"
    | (inp) "?v = TRAP_IN" | (putsp) "?v = TRAP_PUTSP" | (halt) "?v = TRAP_HALT"
    | (none) "?v \<noteq> TRAP_GETC" "?v \<noteq> TRAP_OUT" "?v \<noteq> TRAP_PUTS"
        "?v \<noteq> TRAP_IN" "?v \<noteq> TRAP_PUTSP" "?v \<noteq> TRAP_HALT"
    by blast
  then have "reg s' R_COND = reg ?s1 R_COND"
  proof cases
    case getc
    with assms have "trap_getc ?s1 = Inr s'" by (simp add: op_trap_def)
    then show ?thesis by (rule trap_getc_cond)
  next
    case out
    with assms have "s' = trap_out ?s1" by (simp add: op_trap_def)
    then show ?thesis by (simp only: trap_out_cond)
  next
    case puts
    with assms have "trap_puts ?s1 = Inr s'" by (simp add: op_trap_def)
    then show ?thesis by (rule trap_puts_cond)
  next
    case inp
    with assms have "trap_in ?s1 = Inr s'" by (simp add: op_trap_def)
    then show ?thesis by (rule trap_in_cond)
  next
    case putsp
    with assms have "trap_putsp ?s1 = Inr s'" by (simp add: op_trap_def)
    then show ?thesis by (rule trap_putsp_cond)
  next
    case halt
    with assms have "s' = trap_halt ?s1" by (simp add: op_trap_def)
    then show ?thesis by (simp only: trap_halt_cond)
  next
    case none
    with assms have "s' = ?s1" by (simp add: op_trap_def)
    then show ?thesis by simp
  qed
  with c show ?thesis by simp
qed

lemma op_jsr_cond: "reg (op_jsr i s) R_COND = reg s R_COND"
  by (simp add: op_jsr_def Let_def)

text \<open>
  Claim C1, as the code has it. After each of \<open>ADD\<close>, \<open>AND\<close>, \<open>NOT\<close>, \<open>LD\<close>, \<open>LDI\<close>,
  \<open>LDR\<close> and \<open>LEA\<close> the instruction returns and \<open>COND\<close> is exactly one of \<open>NEG\<close>,
  \<open>ZRO\<close>, \<open>POS\<close>, the one that belongs to the value the destination register
  (bits 11 to 9) then holds. \<open>JSR\<close> and \<open>TRAP\<close>, which write \<open>R7\<close> (and \<open>R0\<close> in the
  traps \<open>GETC\<close> and \<open>IN\<close>), leave \<open>COND\<close> as it was.
\<close>

theorem cond_after_register_write:
  "(drop_bit 12 instr \<in> {OP_ADD, OP_AND, OP_NOT, OP_LD, OP_LDI, OP_LDR, OP_LEA} \<longrightarrow>
      (\<exists>s'. dispatch instr s = Inr s' \<and>
            reg s' R_COND = cond_of (reg s' (drop_bit 9 instr AND 0x7)) \<and>
            reg s' R_COND \<in> {FL_NEG, FL_ZRO, FL_POS})) \<and>
   (drop_bit 12 instr \<in> {OP_JSR, OP_TRAP} \<longrightarrow>
      (\<forall>s'. dispatch instr s = Inr s' \<longrightarrow> reg s' R_COND = reg s R_COND))"
proof (intro conjI impI)
  assume "drop_bit 12 instr \<in> {OP_ADD, OP_AND, OP_NOT, OP_LD, OP_LDI, OP_LDR, OP_LEA}"
  then consider "drop_bit 12 instr = OP_ADD" | "drop_bit 12 instr = OP_AND"
    | "drop_bit 12 instr = OP_NOT" | "drop_bit 12 instr = OP_LD" | "drop_bit 12 instr = OP_LDI"
    | "drop_bit 12 instr = OP_LDR" | "drop_bit 12 instr = OP_LEA"
    by auto
  then have "\<exists>s'. dispatch instr s = Inr s' \<and>
            reg s' R_COND = cond_of (reg s' (drop_bit 9 instr AND 0x7))"
  proof cases
    case 1 then show ?thesis by (simp add: dispatch_def op_add_cond)
  next
    case 2 then show ?thesis by (simp add: dispatch_def op_and_cond)
  next
    case 3 then show ?thesis by (simp add: dispatch_def op_not_cond)
  next
    case 4 then show ?thesis by (simp add: dispatch_def op_ld_cond)
  next
    case 5 then show ?thesis by (simp add: dispatch_def op_ldi_cond)
  next
    case 6 then show ?thesis by (simp add: dispatch_def op_ldr_cond)
  next
    case 7 then show ?thesis by (simp add: dispatch_def op_lea_cond)
  qed
  then show "\<exists>s'. dispatch instr s = Inr s' \<and>
            reg s' R_COND = cond_of (reg s' (drop_bit 9 instr AND 0x7)) \<and>
            reg s' R_COND \<in> {FL_NEG, FL_ZRO, FL_POS}"
    using cond_of_cases by auto
next
  assume "drop_bit 12 instr \<in> {OP_JSR, OP_TRAP}"
  then show "\<forall>s'. dispatch instr s = Inr s' \<longrightarrow> reg s' R_COND = reg s R_COND"
    by (auto simp: dispatch_def op_jsr_cond op_trap_cond)
qed

theorem cond_after_register_write_witness:
  "drop_bit 12 (0x103F :: u16) \<in> {OP_ADD, OP_AND, OP_NOT, OP_LD, OP_LDI, OP_LDR, OP_LEA} \<and>
   (\<exists>s'. dispatch 0x103F (boot []) = Inr s' \<and> reg s' R_R0 = 0xFFFF \<and>
         reg s' R_COND = cond_of (reg s' R_R0) \<and> reg s' R_COND = FL_NEG) \<and>
   drop_bit 12 (0x4800 :: u16) \<in> {OP_JSR, OP_TRAP} \<and>
   dispatch 0x4800 ((boot [])\<lparr>reg := (\<lambda>_. 0)(R_PC := 0x3001, R_COND := FL_ZRO)\<rparr>) =
     Inr ((boot [])\<lparr>reg := (\<lambda>_. 0)(R_PC := 0x3001, R_COND := FL_ZRO, R_R7 := 0x3001)\<rparr>) \<and>
   reg ((boot [])\<lparr>reg := (\<lambda>_. 0)(R_PC := 0x3001, R_COND := FL_ZRO, R_R7 := 0x3001)\<rparr>) R_COND = FL_ZRO"
proof -
  have a: "dispatch 0x103F (boot []) = Inr (op_add 0x103F (boot []))"
    by (simp add: dispatch_def)
  have b: "reg (op_add 0x103F (boot [])) R_R0 = 0xFFFF"
    by (simp add: op_add_def boot_def sign_extend_def update_condition_flags_def)
  have c: "dispatch 0x4800 ((boot [])\<lparr>reg := (\<lambda>_. 0)(R_PC := 0x3001, R_COND := FL_ZRO)\<rparr>) =
     Inr ((boot [])\<lparr>reg := (\<lambda>_. 0)(R_PC := 0x3001, R_COND := FL_ZRO, R_R7 := 0x3001)\<rparr>)"
    by (simp add: dispatch_def op_jsr_def sign_extend_def boot_def)
  from cond_after_register_write [of "0x103F" "boot []"] a b
  have d: "reg (op_add 0x103F (boot [])) R_COND = cond_of (reg (op_add 0x103F (boot [])) R_R0)"
    by simp
  with b have e: "reg (op_add 0x103F (boot [])) R_COND = FL_NEG"
    by (simp add: cond_of_def)
  from cond_after_register_write
         [of "0x4800" "(boot [])\<lparr>reg := (\<lambda>_. 0)(R_PC := 0x3001, R_COND := FL_ZRO)\<rparr>"] c
  have f: "reg ((boot [])\<lparr>reg := (\<lambda>_. 0)(R_PC := 0x3001, R_COND := FL_ZRO, R_R7 := 0x3001)\<rparr>) R_COND = FL_ZRO"
    by simp
  from a b c d e f show ?thesis by simp
qed

text \<open>
  The claim as written also covers \<open>JSR\<close>: from \<open>PC = 0x3001\<close> and \<open>COND = ZRO\<close> (the
  state of the first instruction after start) \<open>JSR\<close> writes \<open>0x3001\<close>, a positive
  value, into \<open>R7\<close> and \<open>COND\<close> stays \<open>ZRO\<close>.
\<close>

theorem cond_after_jsr_counterexample:
  "dispatch 0x4800 ((boot [])\<lparr>reg := (\<lambda>_. 0)(R_PC := 0x3001, R_COND := FL_ZRO)\<rparr>) =
     Inr (op_jsr 0x4800 ((boot [])\<lparr>reg := (\<lambda>_. 0)(R_PC := 0x3001, R_COND := FL_ZRO)\<rparr>)) \<and>
   reg (op_jsr 0x4800 ((boot [])\<lparr>reg := (\<lambda>_. 0)(R_PC := 0x3001, R_COND := FL_ZRO)\<rparr>)) R_R7 = 0x3001 \<and>
   reg (op_jsr 0x4800 ((boot [])\<lparr>reg := (\<lambda>_. 0)(R_PC := 0x3001, R_COND := FL_ZRO)\<rparr>)) R_COND
     \<noteq> cond_of (reg (op_jsr 0x4800 ((boot [])\<lparr>reg := (\<lambda>_. 0)(R_PC := 0x3001, R_COND := FL_ZRO)\<rparr>)) R_R7)"
  by (simp add: dispatch_def op_jsr_def sign_extend_def boot_def cond_of_def)

subsection \<open>Memory interface\<close>

text \<open>
  While the stream buffer is empty and the descriptor is not at its end, a read of the
  keyboard status register does what is expected of it: with a byte waiting it
  returns \<open>0x8000\<close> and puts the byte into \<open>0xFE02\<close>, with none it returns 0.
\<close>

lemma mem_read_KBSR_fresh:
  "stdin_buf s = [] \<Longrightarrow> \<not> fd_eof s \<Longrightarrow>
     mem_read MR_KBSR s =
       (case fd_in s of
          [] \<Rightarrow>
            Inr (0, s\<lparr>memory := (memory s)(MR_KBSR := 0),
                       input_calls := input_calls s + 1\<rparr>)
        | b # bs \<Rightarrow>
            Inr (0x8000, s\<lparr>memory := (memory s)(MR_KBSR := 0x8000, MR_KBDR := ucast b),
                            fd_in := drop BUFSIZ (b # bs), stdin_buf := take 4095 bs,
                            input_calls := input_calls s + 2\<rparr>))"
  by (simp add: mem_read_unfold split: list.split)

text \<open>
  At the end of input \<open>select\<close> reports the descriptor readable and \<open>getchar\<close>
  returns \<open>EOF\<close>: the status register says a key is there and the data register is
  \<open>0xFFFF\<close>.
\<close>

lemma mem_read_KBSR_at_end_of_input:
  "mem_read MR_KBSR ((boot [])\<lparr>fd_eof := True\<rparr>) =
     Inr (0x8000, (boot [])\<lparr>memory := (\<lambda>_. 0)(MR_KBSR := 0x8000, MR_KBDR := 0xFFFF),
                           fd_eof := True, input_calls := 2\<rparr>)"
  by (simp add: mem_read_unfold boot_def)

text \<open>
  Claim C3. A read of \<open>0xFE00\<close> polls the descriptor with \<open>select\<close> and then takes
  the byte with \<open>getchar\<close>, which reads through the buffer of the C library. With
  the two bytes \<open>0x41 0x42\<close> waiting, the first read returns \<open>0x8000\<close> and delivers
  \<open>0x41\<close>, but \<open>getchar\<close> has moved \<open>0x42\<close> into the stream buffer, where the poll
  does not look: the second read stores and returns 0 although \<open>0x42\<close> is pending,
  and does not consume it.
\<close>

theorem mem_read_KBSR_misses_buffered_byte:
  "mem_read MR_KBSR (boot [0x41, 0x42]) =
     Inr (0x8000, (boot [0x41, 0x42])\<lparr>
        memory := (\<lambda>_. 0)(MR_KBSR := 0x8000, MR_KBDR := 0x41),
        fd_in := [], stdin_buf := [0x42], input_calls := 2\<rparr>) \<and>
   mem_read MR_KBSR ((boot [0x41, 0x42])\<lparr>
        memory := (\<lambda>_. 0)(MR_KBSR := 0x8000, MR_KBDR := 0x41),
        fd_in := [], stdin_buf := [0x42], input_calls := 2\<rparr>) =
     Inr (0, (boot [0x41, 0x42])\<lparr>
        memory := (\<lambda>_. 0)(MR_KBSR := 0, MR_KBDR := 0x41),
        fd_in := [], stdin_buf := [0x42], input_calls := 3\<rparr>)"
  by (simp add: mem_read_def check_key_def getchar_def boot_def fun_upd_twist)

text \<open>
  Claim C10. A read of an address other than \<open>0xFE00\<close> returns the cell and leaves
  the whole state as it was: memory, registers, the pending input (on the descriptor
  and in the stream buffer) and the count of input calls (nothing is polled, also not
  by reading \<open>0xFE02\<close>). So a write followed
  by a read of the same such address returns the value written.
\<close>

theorem mem_read_other_frame:
  "address \<noteq> MR_KBSR \<Longrightarrow>
     mem_read address s = Inr (memory s address, s) \<and>
     mem_read address (mem_write address v s) = Inr (v, mem_write address v s)"
  by (simp add: mem_read_def mem_write_def)

theorem mem_read_other_frame_witness:
  "MR_KBDR \<noteq> MR_KBSR \<and>
   mem_read MR_KBDR (boot [0x41]) = Inr (0, boot [0x41]) \<and>
   fd_in (boot [0x41]) = [0x41] \<and> input_calls (boot [0x41]) = 0 \<and>
   mem_read MR_KBDR (mem_write MR_KBDR 0x1234 (boot [0x41])) =
     Inr (0x1234, mem_write MR_KBDR 0x1234 (boot [0x41]))"
  using mem_read_other_frame [of MR_KBDR "boot [0x41]" "0x1234"]
  by (simp add: boot_def)

subsection \<open>Traps\<close>

text \<open>
  Claim C6. A \<open>TRAP\<close> instruction whose low 8 bits are none of the six vectors
  \<open>0x20\<close> to \<open>0x25\<close> copies the (already incremented) \<open>PC\<close> into \<open>R7\<close> and does
  nothing else: the state after it is the state before it with that one register
  written, so the other registers, \<open>COND\<close>, \<open>PC\<close>, memory, the running flag, the
  pending input, the output and the count of input calls are the same.
\<close>

theorem op_trap_undefined_vector:
  "drop_bit 12 instr = OP_TRAP \<Longrightarrow>
   instr AND 0xFF \<notin> {TRAP_GETC, TRAP_OUT, TRAP_PUTS, TRAP_IN, TRAP_PUTSP, TRAP_HALT} \<Longrightarrow>
   dispatch instr s = Inr (s\<lparr>reg := (reg s)(R_R7 := reg s R_PC)\<rparr>)"
  by (simp add: dispatch_def op_trap_def)

theorem op_trap_undefined_vector_witness:
  "drop_bit 12 (0xF0FF :: u16) = OP_TRAP \<and>
   (0xF0FF :: u16) AND 0xFF \<notin> {TRAP_GETC, TRAP_OUT, TRAP_PUTS, TRAP_IN, TRAP_PUTSP, TRAP_HALT} \<and>
   dispatch 0xF0FF (boot [0x41]) =
     Inr ((boot [0x41])\<lparr>reg := (reg (boot [0x41]))(R_R7 := reg (boot [0x41]) R_PC)\<rparr>)"
  using op_trap_undefined_vector [of "0xF0FF" "boot [0x41]"]
  by simp

subsection \<open>Subroutine linkage\<close>

lemma op_jsr_effect:
  "reg (op_jsr instr s) R_R7 = reg s R_PC \<and>
   reg (op_jsr instr s) R_PC =
     (if drop_bit 11 instr AND 0x1 \<noteq> 0 then reg s R_PC + sign_extend (instr AND 0x7FF) 11
      else if drop_bit 6 instr AND 0x7 = R_R7 then reg s R_PC
      else reg s (drop_bit 6 instr AND 0x7))"
  by (simp add: op_jsr_def Let_def)

text \<open>
  Claim C4. \<open>JSR\<close> sets \<open>R7\<close> to the incremented \<open>PC\<close>, and with bit 11 set adds the
  sign-extended offset to \<open>PC\<close>; with bit 11 clear \<open>PC\<close> becomes the base register as
  it is after \<open>R7\<close> was written (\<open>op_jsr_effect\<close>). For a base register other than
  \<open>R7\<close> that is its value before the instruction. For \<open>JSRR R7\<close> (\<open>0x41C0\<close>) it is
  not: with \<open>PC = 0x3001\<close> and \<open>R7 = 0x5000\<close> the instruction ends with
  \<open>PC = 0x3001\<close>, not \<open>0x5000\<close>, because \<open>reg[R_R7] = reg[R_PC]\<close> runs before
  \<open>reg[R_PC] = reg[base]\<close>.
\<close>

theorem jsrr_r7_jumps_to_link:
  "dispatch 0x41C0 (s\<lparr>reg := (reg s)(R_PC := 0x3001, R_R7 := 0x5000)\<rparr>) =
     Inr (s\<lparr>reg := (reg s)(R_PC := 0x3001, R_R7 := 0x3001)\<rparr>)"
  by (simp add: dispatch_def op_jsr_def fun_upd_twist)

subsection \<open>Image loader\<close>

lemma fread_words_Nil: "fread_words p n [] m = (0, m)"
  by (cases n) simp_all

lemma fread_words_numeral:
  "fread_words p (numeral k) (b0 # b1 # bs) m =
     (let (r, m1) = fread_words (Suc p) (pred_numeral k) bs
                      (m(of_nat p := ucast b0 OR push_bit 8 (ucast b1)))
      in (Suc r, m1))"
  by (simp add: numeral_eq_Suc)

lemma fread_words_count: "fst (fread_words p n bs m) = min n (length bs div 2)"
proof (induction p n bs m rule: fread_words.induct)
  case (1 p n b0 b1 bs m)
  let ?m1 = "m(of_nat p := ucast b0 OR push_bit 8 (ucast b1))"
  have "fst (fread_words p (Suc n) (b0 # b1 # bs) m) = Suc (fst (fread_words (Suc p) n bs ?m1))"
    by (simp add: split_beta)
  also have "\<dots> = Suc (min n (length bs div 2))"
    by (simp only: "1.IH")
  finally show ?case by simp
qed simp_all

lemma of_nat_eq_iff_unat:
  "p < MAX_MEMORY \<Longrightarrow> ((of_nat p :: u16) = a) = (unat a = p)"
  "p < MAX_MEMORY \<Longrightarrow> (a = (of_nat p :: u16)) = (unat a = p)"
  by (auto simp: unat_of_nat)

lemma fread_words_apply:
  "p + n \<le> MAX_MEMORY \<Longrightarrow>
     snd (fread_words p n bs m) a =
       (if p \<le> unat a \<and> unat a < p + min n (length bs div 2)
        then ucast (bs ! (2 * (unat a - p))) OR push_bit 8 (ucast (bs ! (2 * (unat a - p) + 1)))
        else if odd (length bs) \<and> length bs div 2 < n \<and> unat a = p + length bs div 2
        then (m a AND 0xFF00) OR ucast (last bs)
        else m a)"
proof (induction p n bs m rule: fread_words.induct)
  case (1 p n b0 b1 bs m)
  let ?m1 = "m(of_nat p := ucast b0 OR push_bit 8 (ucast b1))"
  from "1.prems" have lt: "p < MAX_MEMORY" and fit: "Suc p + n \<le> MAX_MEMORY" by simp_all
  have "snd (fread_words p (Suc n) (b0 # b1 # bs) m) a = snd (fread_words (Suc p) n bs ?m1) a"
    by (simp add: split_beta)
  also have "\<dots> =
       (if Suc p \<le> unat a \<and> unat a < Suc p + min n (length bs div 2)
        then ucast (bs ! (2 * (unat a - Suc p)))
               OR push_bit 8 (ucast (bs ! (2 * (unat a - Suc p) + 1)))
        else if odd (length bs) \<and> length bs div 2 < n \<and> unat a = Suc p + length bs div 2
        then (?m1 a AND 0xFF00) OR ucast (last bs)
        else ?m1 a)"
    using fit by (rule "1.IH")
  also have "\<dots> =
       (if p \<le> unat a \<and> unat a < p + min (Suc n) (length (b0 # b1 # bs) div 2)
        then ucast ((b0 # b1 # bs) ! (2 * (unat a - p)))
               OR push_bit 8 (ucast ((b0 # b1 # bs) ! (2 * (unat a - p) + 1)))
        else if odd (length (b0 # b1 # bs)) \<and> length (b0 # b1 # bs) div 2 < Suc n
                \<and> unat a = p + length (b0 # b1 # bs) div 2
        then (m a AND 0xFF00) OR ucast (last (b0 # b1 # bs))
        else m a)"
  proof (cases "unat a = p")
    case True
    with lt show ?thesis by (auto simp: of_nat_eq_iff_unat)
  next
    case False
    then have ne: "a \<noteq> of_nat p" using lt by (simp add: of_nat_eq_iff_unat)
    show ?thesis
    proof (cases "Suc p \<le> unat a")
      case True
      then obtain d where d: "unat a = Suc p + d" using le_Suc_ex by blast
      with ne show ?thesis by (auto simp: nth_Cons')
    next
      case False
      with \<open>unat a \<noteq> p\<close> ne show ?thesis by auto
    qed
  qed
  finally show ?case .
next
  case (2 p n b0 m)
  then have "p < MAX_MEMORY" by simp
  then show ?case by (auto simp: of_nat_eq_iff_unat)
qed auto

lemma swap_loop_apply:
  "p + n \<le> MAX_MEMORY \<Longrightarrow>
     swap_loop p n m a = (if p \<le> unat a \<and> unat a < p + n then swap16 (m a) else m a)"
proof (induction n arbitrary: p m)
  case 0
  then show ?case by auto
next
  case (Suc n)
  then have lt: "p < MAX_MEMORY" and fit: "Suc p + n \<le> MAX_MEMORY" by simp_all
  let ?m1 = "m(of_nat p := swap16 (m (of_nat p)))"
  have "swap_loop p (Suc n) m a = swap_loop (Suc p) n ?m1 a"
    by simp
  also have "\<dots> = (if Suc p \<le> unat a \<and> unat a < Suc p + n then swap16 (?m1 a) else ?m1 a)"
    using fit by (rule Suc.IH)
  also have "\<dots> = (if p \<le> unat a \<and> unat a < p + Suc n then swap16 (m a) else m a)"
    using lt by (auto simp: of_nat_eq_iff_unat)
  finally show ?case .
qed

lemma swap16_bytes:
  "swap16 (ucast (b0 :: byte) OR push_bit 8 (ucast (b1 :: byte))) = push_bit 8 (ucast b0) OR ucast b1"
  unfolding swap16_def
  by (rule bit_word_eqI)
     (auto simp: bit_or_iff bit_push_bit_iff bit_drop_bit_eq bit_ucast_iff dest: bit_imp_le_length)

text \<open>
  For an origin other than 0 the loader does what is expected of it: the big-endian
  words that follow the origin in the file are stored from \<open>origin\<close> on, as many as
  the file has whole words and memory has cells up to \<open>0xFFFF\<close>; a short file ends
  the loading without an error. When the file ends with an odd byte and there is a
  cell left for it, that byte replaces the low byte of the cell after the last word.
  Every other cell keeps its value.
\<close>

lemma read_image_file_loads:
  assumes o: "origin = push_bit 8 (ucast hi) OR ucast lo" and nz: "origin \<noteq> 0"
  shows "read_image_file (hi # lo # rest) s =
     Inr (s\<lparr>memory := (\<lambda>a.
        if origin \<le> a \<and> unat a - unat origin < length rest div 2
        then push_bit 8 (ucast (rest ! (2 * (unat a - unat origin))))
               OR ucast (rest ! (2 * (unat a - unat origin) + 1))
        else if odd (length rest) \<and> origin \<le> a \<and> unat a - unat origin = length rest div 2
        then (memory s a AND 0xFF00) OR ucast (last rest)
        else memory s a)\<rparr>)"
proof -
  let ?p = "unat origin"
  let ?n = "MAX_MEMORY - ?p"
  let ?k = "length rest div 2"
  let ?fr = "fread_words ?p ?n rest (memory s)"
  have sw: "swap16 (ucast hi OR push_bit 8 (ucast lo)) = origin"
    by (simp add: o swap16_bytes)
  have p0: "0 < ?p" using nz by (simp add: unat_gt_0)
  have plt: "?p < MAX_MEMORY" using unsigned_less [of origin, where 'a = nat] by simp
  have "?n mod 2 ^ LENGTH(16) = ?n"
    using p0 plt by simp
  then have mr0: "unat (of_nat ?n :: u16) = ?n"
    by (simp only: unat_of_nat)
  have cnt: "fst ?fr = min ?n ?k" by (rule fread_words_count)
  have fit: "?p + ?n \<le> MAX_MEMORY" using plt by simp
  have fit': "?p + fst ?fr \<le> MAX_MEMORY" using plt by (simp add: cnt)
  have mem: "swap_loop ?p (fst ?fr) (snd ?fr) a =
        (if origin \<le> a \<and> unat a - ?p < ?k
         then push_bit 8 (ucast (rest ! (2 * (unat a - ?p))))
                OR ucast (rest ! (2 * (unat a - ?p) + 1))
         else if odd (length rest) \<and> origin \<le> a \<and> unat a - ?p = ?k
         then (memory s a AND 0xFF00) OR ucast (last rest)
         else memory s a)" for a
  proof -
    have alt: "unat a < MAX_MEMORY" using unsigned_less [of a, where 'a = nat] by simp
    have rng: "(?p \<le> unat a \<and> unat a < ?p + min ?n ?k) = (origin \<le> a \<and> unat a - ?p < ?k)"
      using alt by (auto simp: word_le_nat_alt)
    have tail: "(?k < ?n \<and> unat a = ?p + ?k) = (origin \<le> a \<and> unat a - ?p = ?k)"
      using alt by (auto simp: word_le_nat_alt)
    have sl: "swap_loop ?p (fst ?fr) (snd ?fr) a =
        (if origin \<le> a \<and> unat a - ?p < ?k then swap16 (snd ?fr a) else snd ?fr a)"
      using fit' by (simp only: swap_loop_apply cnt rng)
    have fr: "snd ?fr a =
        (if origin \<le> a \<and> unat a - ?p < ?k
         then ucast (rest ! (2 * (unat a - ?p))) OR push_bit 8 (ucast (rest ! (2 * (unat a - ?p) + 1)))
         else if odd (length rest) \<and> origin \<le> a \<and> unat a - ?p = ?k
         then (memory s a AND 0xFF00) OR ucast (last rest)
         else memory s a)"
      using fit by (simp only: fread_words_apply rng tail)
    show ?thesis
    proof (cases "origin \<le> a \<and> unat a - ?p < ?k")
      case True
      with sl have "swap_loop ?p (fst ?fr) (snd ?fr) a = swap16 (snd ?fr a)" by simp
      also from True fr have "snd ?fr a =
          ucast (rest ! (2 * (unat a - ?p))) OR push_bit 8 (ucast (rest ! (2 * (unat a - ?p) + 1)))"
        by simp
      finally show ?thesis using True by (simp add: swap16_bytes)
    next
      case False
      with sl have "swap_loop ?p (fst ?fr) (snd ?fr) a = snd ?fr a" by auto
      also from False fr have "snd ?fr a =
          (if odd (length rest) \<and> origin \<le> a \<and> unat a - ?p = ?k
           then (memory s a AND 0xFF00) OR ucast (last rest) else memory s a)"
        by auto
      finally show ?thesis using False by auto
    qed
  qed
  have "read_image_file (hi # lo # rest) s = Inr (s\<lparr>memory := swap_loop ?p (fst ?fr) (snd ?fr)\<rparr>)"
    unfolding read_image_file_def
    by (simp only: list.case Let_def split_beta sw mr0)
  also have "swap_loop ?p (fst ?fr) (snd ?fr) =
      (\<lambda>a. if origin \<le> a \<and> unat a - ?p < ?k
         then push_bit 8 (ucast (rest ! (2 * (unat a - ?p))))
                OR ucast (rest ! (2 * (unat a - ?p) + 1))
         else if odd (length rest) \<and> origin \<le> a \<and> unat a - ?p = ?k
         then (memory s a AND 0xFF00) OR ucast (last rest)
         else memory s a)"
    by (rule ext) (rule mem)
  finally show ?thesis .
qed

text \<open>
  Claim C5. The loader reads the origin, then up to \<open>max_read\<close> words, where
  \<open>max_read\<close> is \<open>MAX_MEMORY - origin\<close> stored in a \<open>uint16_t\<close>. For an origin
  other than 0 that is the number of cells from the origin to the end of memory
  (\<open>read_image_file_loads\<close>). For origin 0 it is 65536 cut to 16 bits, which is 0: an
  image with origin 0 loads no word at all, whatever follows the origin in the file,
  and memory stays as it was.
\<close>

theorem read_image_file_origin_zero:
  "read_image_file (0x00 # 0x00 # rest) s = Inr s"
  by (simp add: read_image_file_def swap16_def)

subsection \<open>Fatal opcodes and the terminal\<close>

lemma dispatch_bad_opcode:
  "drop_bit 12 instr = OP_RTI \<or> drop_bit 12 instr = OP_RES \<Longrightarrow>
     dispatch instr s = Inl (Abort, s)"
  by (auto simp: dispatch_def)

lemma load_rti_image:
  "read_image_file [0x30, 0x00, 0x80, 0x00] (boot inp) =
     Inr ((boot inp)\<lparr>memory := (\<lambda>_. 0)(0x3000 := 0x8000)\<rparr>)"
  by (simp add: read_image_file_def swap16_def fread_words_numeral fread_words_Nil boot_def)

lemma load_halt_image:
  "read_image_file [0x30, 0x00, 0xF0, 0x25] (boot inp) =
     Inr ((boot inp)\<lparr>memory := (\<lambda>_. 0)(0x3000 := 0xF025)\<rparr>)"
proof -
  have "swap16 0x30 = 0x3000" "swap16 0x25F0 = 0xF025"
    by (simp_all add: swap16_def)
  then show ?thesis
    by (simp add: read_image_file_def fread_words_numeral fread_words_Nil boot_def)
qed

lemma bytes_HALT: "bytes_of ''HALT'' @ [10] = [0x48, 0x41, 0x4C, 0x54, 0x0A]"
  by (simp add: bytes_of_def)

text \<open>
  The two other ways out of \<open>main\<close> put the terminal back: the return after \<open>HALT\<close>
  and the handler of the interrupt signal.
\<close>

lemma halt_restores_terminal:
  "main (Suc (Suc n)) [(path, Some [0x30, 0x00, 0xF0, 0x25])] (boot inp) =
     Exited 0 ((boot inp)\<lparr>memory := (\<lambda>_. 0)(0x3000 := 0xF025),
        reg := (\<lambda>_. 0)(R_COND := FL_ZRO, R_PC := 0x3001, R_R7 := 0x3001),
        running := False,
        orig_tio := \<lparr>icanon = True, echo = True\<rparr>,
        stdout := [0x48, 0x41, 0x4C, 0x54, 0x0A],
        tio := \<lparr>icanon = True, echo = True\<rparr>\<rparr>)"
  apply (simp add: main_def load_halt_image)
  apply (simp add: boot_def disable_input_buffering_def restore_input_buffering_def
      step_def mem_read_def dispatch_def op_trap_def trap_halt_def bytes_HALT putc_def)
  done

lemma interrupt_restores_terminal:
  "handle_interrupt s = Exited (- 2) (s\<lparr>stdout := stdout s @ [10], tio := orig_tio s\<rparr>)"
  by (simp add: handle_interrupt_def restore_input_buffering_def putc_def)

text \<open>
  Claim C7. An instruction with top nibble \<open>0x8\<close> or \<open>0xD\<close> ends the process by
  \<open>abort()\<close> in the very iteration that fetched it (\<open>dispatch_bad_opcode\<close>), but
  nothing restores the terminal on that path. The image \<open>0x3000: 0x8000\<close> ends with
  \<open>ICANON\<close> and \<open>ECHO\<close> still cleared, while the saved settings \<open>orig_tio\<close> have
  them set.
\<close>

theorem abort_leaves_terminal_raw:
  "main (Suc n) [(path, Some [0x30, 0x00, 0x80, 0x00])] (boot inp) =
     Killed Abort ((boot inp)\<lparr>memory := (\<lambda>_. 0)(0x3000 := 0x8000),
        reg := (\<lambda>_. 0)(R_COND := FL_ZRO, R_PC := 0x3001),
        orig_tio := \<lparr>icanon = True, echo = True\<rparr>,
        tio := \<lparr>icanon = False, echo = False\<rparr>\<rparr>)"
  apply (simp add: main_def load_rti_image)
  apply (simp add: boot_def disable_input_buffering_def step_def mem_read_def dispatch_def)
  done

subsection \<open>The packed string trap\<close>

lemma low_byte: "(ucast (w AND 0xFF :: u16) :: byte) = ucast w"
proof -
  have e: "(0xFF :: u16) = mask 8" by (simp add: mask_eq_exp_minus_1)
  show ?thesis
    unfolding e
    by (rule bit_word_eqI) (simp add: bit_ucast_iff bit_and_iff bit_mask_iff del: mask_numeral)
qed

lemma string_cells_unfold:
  "c < MAX_MEMORY \<Longrightarrow>
     string_cells m c = (if m (of_nat c) \<noteq> 0 then m (of_nat c) # string_cells m (Suc c) else [])"
  by (simp add: string_cells_def upt_conv_Cons)

lemma putsp_output_unfold:
  "c < MAX_MEMORY \<Longrightarrow>
     putsp_output m c =
       (if m (of_nat c) \<noteq> 0 then putsp_bytes (m (of_nat c)) @ putsp_output m (Suc c) else [])"
  by (simp add: putsp_output_def string_cells_unfold)

lemma putsp_step_stdout:
  "(if (ucast (drop_bit 8 w) :: byte) \<noteq> 0
    then putc (ucast (drop_bit 8 w)) (putc (ucast (w AND 0xFF)) s)
    else putc (ucast (w AND 0xFF)) s) = s\<lparr>stdout := stdout s @ putsp_bytes w\<rparr>"
  by (simp add: putc_def putsp_bytes_def low_byte)

lemma trap_putsp_loop_output:
  "c \<le> k \<Longrightarrow> k < MAX_MEMORY \<Longrightarrow> memory s (of_nat k) = 0 \<Longrightarrow>
     trap_putsp_loop c s = Inr (s\<lparr>stdout := stdout s @ putsp_output (memory s) c\<rparr>)"
proof (induction c s rule: trap_putsp_loop.induct)
  case (1 c s)
  let ?w = "memory s (of_nat c)"
  let ?s2 = "if (ucast (drop_bit 8 ?w) :: byte) \<noteq> 0
             then putc (ucast (drop_bit 8 ?w)) (putc (ucast (?w AND 0xFF)) s)
             else putc (ucast (?w AND 0xFF)) s"
  from "1.prems" have nb: "\<not> MAX_MEMORY \<le> c" and lt: "c < MAX_MEMORY" by simp_all
  show ?case
  proof (cases "?w \<noteq> 0")
    case True
    with "1.prems" have "c \<noteq> k" by auto
    with "1.prems" have le: "Suc c \<le> k" by simp
    have s2: "?s2 = s\<lparr>stdout := stdout s @ putsp_bytes ?w\<rparr>"
      by (rule putsp_step_stdout)
    have "trap_putsp_loop c s = trap_putsp_loop (Suc c) ?s2"
      using nb True by (subst trap_putsp_loop.simps) (simp add: Let_def split del: if_split)
    also have "\<dots> = Inr (?s2\<lparr>stdout := stdout ?s2 @ putsp_output (memory ?s2) (Suc c)\<rparr>)"
      using "1.IH" [OF nb True refl refl refl refl le] "1.prems" by (simp add: s2)
    also have "\<dots> = Inr (s\<lparr>stdout := stdout s @ putsp_output (memory s) c\<rparr>)"
      using True lt by (simp add: s2 putsp_output_unfold)
    finally show ?thesis .
  next
    case False
    then have "trap_putsp_loop c s = Inr s"
      using nb by (subst trap_putsp_loop.simps) simp
    with False lt show ?thesis by (simp add: putsp_output_unfold)
  qed
qed

lemma trap_putsp_output:
  assumes "reg s R_R0 \<le> a" "memory s a = 0"
  shows "trap_putsp s = Inr (s\<lparr>stdout := stdout s @ putsp_output (memory s) (unat (reg s R_R0))\<rparr>)"
proof -
  have "unat (reg s R_R0) \<le> unat a" using assms(1) by (simp add: word_le_nat_alt)
  moreover have "unat a < MAX_MEMORY" using unsigned_less [of a, where 'a = nat] by simp
  moreover have "memory s (of_nat (unat a)) = 0" using assms(2) by simp
  ultimately show ?thesis
    unfolding trap_putsp_def by (rule trap_putsp_loop_output)
qed

text \<open>
  Claim C8. When some cell at or after address \<open>R0\<close> is zero, \<open>TRAP 0x24\<close> returns,
  having appended to the output exactly the bytes of \<open>putsp_output\<close>: low byte, then
  high byte unless it is zero, of every cell from \<open>R0\<close> up to the first zero cell,
  where it stops. Nothing else changes but \<open>R7\<close>, which every trap sets.
\<close>

theorem op_trap_putsp_output:
  assumes "instr AND 0xFF = TRAP_PUTSP" "reg s R_R0 \<le> a" "memory s a = 0"
  shows "op_trap instr s =
     Inr (s\<lparr>reg := (reg s)(R_R7 := reg s R_PC),
            stdout := stdout s @ putsp_output (memory s) (unat (reg s R_R0))\<rparr>)"
proof -
  let ?s1 = "s\<lparr>reg := (reg s)(R_R7 := reg s R_PC)\<rparr>"
  from assms(1) have "op_trap instr s = trap_putsp ?s1"
    by (simp add: op_trap_def)
  moreover have "reg ?s1 R_R0 \<le> a" "memory ?s1 a = 0" using assms by simp_all
  then have "trap_putsp ?s1 =
     Inr (?s1\<lparr>stdout := stdout ?s1 @ putsp_output (memory ?s1) (unat (reg ?s1 R_R0))\<rparr>)"
    by (rule trap_putsp_output)
  ultimately show ?thesis by simp
qed

theorem op_trap_putsp_output_witness:
  "(0xF024 :: u16) AND 0xFF = TRAP_PUTSP \<and>
   reg ((boot [])\<lparr>memory := (\<lambda>_. 0)(0x4000 := 0x6548, 0x4001 := 0x006C),
                   reg := (\<lambda>_. 0)(R_R0 := 0x4000, R_PC := 0x3001)\<rparr>) R_R0 \<le> 0x4002 \<and>
   memory ((boot [])\<lparr>memory := (\<lambda>_. 0)(0x4000 := 0x6548, 0x4001 := 0x006C),
                   reg := (\<lambda>_. 0)(R_R0 := 0x4000, R_PC := 0x3001)\<rparr>) 0x4002 = 0 \<and>
   op_trap 0xF024
     ((boot [])\<lparr>memory := (\<lambda>_. 0)(0x4000 := 0x6548, 0x4001 := 0x006C),
               reg := (\<lambda>_. 0)(R_R0 := 0x4000, R_PC := 0x3001)\<rparr>) =
     Inr ((boot [])\<lparr>memory := (\<lambda>_. 0)(0x4000 := 0x6548, 0x4001 := 0x006C),
               reg := (\<lambda>_. 0)(R_R0 := 0x4000, R_PC := 0x3001, R_R7 := 0x3001),
               stdout := [0x48, 0x65, 0x6C]\<rparr>)"
proof -
  let ?m = "(\<lambda>_. 0)(0x4000 := 0x6548, 0x4001 := 0x006C) :: u16 \<Rightarrow> u16"
  let ?s = "(boot [])\<lparr>memory := ?m, reg := (\<lambda>_. 0)(R_R0 := 0x4000, R_PC := 0x3001)\<rparr>"
  have h1: "(0xF024 :: u16) AND 0xFF = TRAP_PUTSP" by simp
  have h2: "reg ?s R_R0 \<le> 0x4002" by simp
  have h3: "memory ?s 0x4002 = 0" by simp
  have b: "putsp_bytes 0x6548 = [0x48, 0x65]" "putsp_bytes 0x006C = [0x6C]"
    by (simp_all add: putsp_bytes_def)
  have "putsp_output ?m 16386 = []"
    by (simp add: putsp_output_unfold)
  then have "putsp_output ?m 16385 = [0x6C]"
    by (simp add: putsp_output_unfold [of 16385] b)
  then have o: "putsp_output ?m 16384 = [0x48, 0x65, 0x6C]"
    by (simp add: putsp_output_unfold [of 16384] b)
  from op_trap_putsp_output [OF h1 h2 h3] o h1 h2 h3 show ?thesis
    by (simp add: boot_def)
qed

section \<open>Determinism of programs without input\<close>

lemma calls_simps [simp]:
  "calls (Inr s) = input_calls s" "calls (Inl (f, s)) = input_calls s"
  by (simp_all add: calls_def)

lemma same_result_simps [simp]:
  "same_result (Inr s) (Inr t) = same_machine s t"
  "same_result (Inl (f, s)) (Inl (g, t)) = (f = g \<and> same_machine s t)"
  "same_result (Inr s) (Inl e) = False"
  "same_result (Inl e) (Inr t) = False"
  by (simp_all add: same_result_def split: prod.splits)

lemma same_machineD:
  "same_machine s t \<Longrightarrow> memory t = memory s \<and> reg t = reg s \<and> running t = running s \<and> stdout t = stdout s"
  by (simp add: same_machine_def)

lemma mem_read_plain: "a \<noteq> MR_KBSR \<Longrightarrow> mem_read a s = Inr (memory s a, s)"
  by (simp add: mem_read_unfold)

lemma mem_read_poll_counts:
  "\<exists>v s1. mem_read MR_KBSR s = Inr (v, s1) \<and> input_calls s < input_calls s1"
  by (simp add: mem_read_unfold split: list.split)

subsection \<open>Handlers that never read input\<close>

lemma pure_ops_calls:
  "input_calls (op_add i s) = input_calls s"
  "input_calls (op_and i s) = input_calls s"
  "input_calls (op_not i s) = input_calls s"
  "input_calls (op_br i s) = input_calls s"
  "input_calls (op_jmp i s) = input_calls s"
  "input_calls (op_jsr i s) = input_calls s"
  "input_calls (op_lea i s) = input_calls s"
  "input_calls (op_st i s) = input_calls s"
  "input_calls (op_str i s) = input_calls s"
  by (simp_all add: op_add_def op_and_def op_not_def op_br_def op_jmp_def op_jsr_def op_lea_def
      op_st_def op_str_def mem_write_def Let_def update_condition_flags_frame)

lemma update_condition_flags_sim:
  "same_machine s t \<Longrightarrow> same_machine (update_condition_flags r s) (update_condition_flags r t)"
  by (simp add: same_machine_def update_condition_flags_def)

lemma op_add_sim: "same_machine s t \<Longrightarrow> same_machine (op_add i s) (op_add i t)"
  by (auto simp: op_add_def Let_def intro!: update_condition_flags_sim) (simp_all add: same_machine_def)

lemma op_and_sim: "same_machine s t \<Longrightarrow> same_machine (op_and i s) (op_and i t)"
  by (auto simp: op_and_def Let_def intro!: update_condition_flags_sim) (simp_all add: same_machine_def)

lemma op_not_sim: "same_machine s t \<Longrightarrow> same_machine (op_not i s) (op_not i t)"
  by (auto simp: op_not_def Let_def intro!: update_condition_flags_sim) (simp_all add: same_machine_def)

lemma op_lea_sim: "same_machine s t \<Longrightarrow> same_machine (op_lea i s) (op_lea i t)"
  by (auto simp: op_lea_def Let_def intro!: update_condition_flags_sim) (simp_all add: same_machine_def)

lemma op_br_sim: "same_machine s t \<Longrightarrow> same_machine (op_br i s) (op_br i t)"
  by (simp add: op_br_def Let_def same_machine_def)

lemma op_jmp_sim: "same_machine s t \<Longrightarrow> same_machine (op_jmp i s) (op_jmp i t)"
  by (simp add: op_jmp_def Let_def same_machine_def)

lemma op_jsr_sim: "same_machine s t \<Longrightarrow> same_machine (op_jsr i s) (op_jsr i t)"
  by (simp add: op_jsr_def Let_def same_machine_def)

lemma op_st_sim: "same_machine s t \<Longrightarrow> same_machine (op_st i s) (op_st i t)"
  by (simp add: op_st_def Let_def mem_write_def same_machine_def)

lemma op_str_sim: "same_machine s t \<Longrightarrow> same_machine (op_str i s) (op_str i t)"
  by (simp add: op_str_def Let_def mem_write_def same_machine_def)

subsection \<open>Handlers that read memory\<close>

lemma load_sim:
  assumes "same_machine s t" "a \<noteq> MR_KBSR"
  shows "same_machine (update_condition_flags r (s\<lparr>reg := (reg s)(r := memory s a)\<rparr>))
                      (update_condition_flags r (t\<lparr>reg := (reg t)(r := memory t a)\<rparr>))"
  using assms by (intro update_condition_flags_sim) (simp add: same_machine_def)

lemma op_ld_mono: "input_calls s \<le> calls (op_ld i s)"
proof -
  obtain v s1 where "mem_read (reg s R_PC + sign_extend (i AND 0x1FF) 9) s = Inr (v, s1)"
    "input_calls s \<le> input_calls s1"
    using mem_read_returns by blast
  then show ?thesis by (simp add: op_ld_def Let_def update_condition_flags_frame)
qed

lemma op_ldr_mono: "input_calls s \<le> calls (op_ldr i s)"
proof -
  obtain v s1 where
    "mem_read (reg s (drop_bit 6 i AND 7) + sign_extend (i AND 0x3F) 6) s = Inr (v, s1)"
    "input_calls s \<le> input_calls s1"
    using mem_read_returns by blast
  then show ?thesis by (simp add: op_ldr_def Let_def update_condition_flags_frame)
qed

lemma op_ldi_mono: "input_calls s \<le> calls (op_ldi i s)"
proof -
  obtain a s1 where 1: "mem_read (reg s R_PC + sign_extend (i AND 0x1FF) 9) s = Inr (a, s1)"
    "input_calls s \<le> input_calls s1"
    using mem_read_returns by blast
  obtain v s2 where 2: "mem_read a s1 = Inr (v, s2)" "input_calls s1 \<le> input_calls s2"
    using mem_read_returns by blast
  from 1 2 show ?thesis by (simp add: op_ldi_def Let_def update_condition_flags_frame)
qed

lemma op_sti_mono: "input_calls s \<le> calls (op_sti i s)"
proof -
  obtain a s1 where "mem_read (reg s R_PC + sign_extend (i AND 0x1FF) 9) s = Inr (a, s1)"
    "input_calls s \<le> input_calls s1"
    using mem_read_returns by blast
  then show ?thesis by (simp add: op_sti_def Let_def mem_write_def)
qed

lemma op_ld_sim:
  assumes "same_machine s t" "calls (op_ld i s) = input_calls s"
  shows "same_result (op_ld i s) (op_ld i t) \<and> calls (op_ld i t) = input_calls t"
proof (cases "reg s R_PC + sign_extend (i AND 0x1FF) 9 = MR_KBSR")
  case True
  obtain v s1 where "mem_read MR_KBSR s = Inr (v, s1)" "input_calls s < input_calls s1"
    using mem_read_poll_counts by blast
  with True assms(2) show ?thesis
    by (simp add: op_ld_def Let_def update_condition_flags_frame)
next
  case False
  moreover from assms(1) have "reg t = reg s" by (simp add: same_machine_def)
  ultimately show ?thesis
    using load_sim [OF assms(1) False]
    by (simp add: op_ld_def Let_def mem_read_plain update_condition_flags_frame)
qed

lemma op_ldr_sim:
  assumes "same_machine s t" "calls (op_ldr i s) = input_calls s"
  shows "same_result (op_ldr i s) (op_ldr i t) \<and> calls (op_ldr i t) = input_calls t"
proof (cases "reg s (drop_bit 6 i AND 7) + sign_extend (i AND 0x3F) 6 = MR_KBSR")
  case True
  obtain v s1 where "mem_read MR_KBSR s = Inr (v, s1)" "input_calls s < input_calls s1"
    using mem_read_poll_counts by blast
  with True assms(2) show ?thesis
    by (simp add: op_ldr_def Let_def update_condition_flags_frame)
next
  case False
  moreover from assms(1) have "reg t = reg s" by (simp add: same_machine_def)
  ultimately show ?thesis
    using load_sim [OF assms(1) False]
    by (simp add: op_ldr_def Let_def mem_read_plain update_condition_flags_frame)
qed

lemma op_ldi_sim:
  assumes "same_machine s t" "calls (op_ldi i s) = input_calls s"
  shows "same_result (op_ldi i s) (op_ldi i t) \<and> calls (op_ldi i t) = input_calls t"
proof (cases "reg s R_PC + sign_extend (i AND 0x1FF) 9 = MR_KBSR")
  case True
  obtain a s1 where 1: "mem_read MR_KBSR s = Inr (a, s1)" "input_calls s < input_calls s1"
    using mem_read_poll_counts by blast
  obtain v s2 where 2: "mem_read a s1 = Inr (v, s2)" "input_calls s1 \<le> input_calls s2"
    using mem_read_returns by blast
  from True 1 2 assms(2) show ?thesis
    by (simp add: op_ldi_def Let_def update_condition_flags_frame)
next
  case False
  from assms(1) have eq: "reg t = reg s" "memory t = memory s" by (simp_all add: same_machine_def)
  let ?a = "memory s (reg s R_PC + sign_extend (i AND 0x1FF) 9)"
  show ?thesis
  proof (cases "?a = MR_KBSR")
    case True
    obtain v s2 where "mem_read MR_KBSR s = Inr (v, s2)" "input_calls s < input_calls s2"
      using mem_read_poll_counts by blast
    with True False assms(2) show ?thesis
      by (simp add: op_ldi_def Let_def mem_read_plain update_condition_flags_frame)
  next
    case a: False
    with False eq show ?thesis
      using load_sim [OF assms(1) a]
      by (simp add: op_ldi_def Let_def mem_read_plain update_condition_flags_frame)
  qed
qed

lemma op_sti_sim:
  assumes "same_machine s t" "calls (op_sti i s) = input_calls s"
  shows "same_result (op_sti i s) (op_sti i t) \<and> calls (op_sti i t) = input_calls t"
proof (cases "reg s R_PC + sign_extend (i AND 0x1FF) 9 = MR_KBSR")
  case True
  obtain v s1 where "mem_read MR_KBSR s = Inr (v, s1)" "input_calls s < input_calls s1"
    using mem_read_poll_counts by blast
  with True assms(2) show ?thesis
    by (simp add: op_sti_def Let_def mem_write_def)
next
  case False
  moreover from assms(1) have "reg t = reg s" "memory t = memory s"
    by (simp_all add: same_machine_def)
  ultimately show ?thesis
    using assms(1)
    by (simp add: op_sti_def Let_def mem_read_plain mem_write_def same_machine_def)
qed

subsection \<open>Traps\<close>

lemma getchar_counts:
  "(case getchar s of Inl (f, s1) \<Rightarrow> input_calls s1 | Inr (b, s1) \<Rightarrow> input_calls s1)
     = input_calls s + 1"
  by (simp add: getchar_def Let_def split: list.split)

lemma trap_getc_calls: "calls (trap_getc s) = input_calls s + 1"
  using getchar_counts [of s]
  by (auto simp: trap_getc_def Let_def split: sum.splits prod.splits)

lemma trap_in_calls: "calls (trap_in s) = input_calls s + 1"
  using getchar_counts [of "put_bytes (bytes_of ''Enter a character: '') s"]
  by (auto simp: trap_in_def Let_def putc_frame put_bytes_frame split: sum.splits prod.splits)

lemma putc_sim: "same_machine s t \<Longrightarrow> same_machine (putc c s) (putc c t)"
  by (simp add: same_machine_def putc_def)

lemma put_bytes_sim: "same_machine s t \<Longrightarrow> same_machine (put_bytes cs s) (put_bytes cs t)"
  by (induction cs arbitrary: s t) (simp_all add: putc_sim)

lemma trap_out_sim: "same_machine s t \<Longrightarrow> same_machine (trap_out s) (trap_out t)"
  by (simp add: trap_out_def same_machine_def putc_def)

lemma trap_halt_sim: "same_machine s t \<Longrightarrow> same_machine (trap_halt s) (trap_halt t)"
  using put_bytes_sim [of s t "bytes_of ''HALT'' @ [10]"]
  by (simp add: trap_halt_def same_machine_def)

lemma trap_out_calls: "input_calls (trap_out s) = input_calls s"
  by (simp add: trap_out_def putc_frame)

lemma trap_halt_calls: "input_calls (trap_halt s) = input_calls s"
  by (simp add: trap_halt_def put_bytes_frame)

lemma trap_puts_loop_calls: "calls (trap_puts_loop c s) = input_calls s"
proof (induction c s rule: trap_puts_loop.induct)
  case (1 c s)
  show ?case
  proof (cases "\<not> MAX_MEMORY \<le> c \<and> memory s (of_nat c) \<noteq> 0")
    case True
    then have "trap_puts_loop c s =
        trap_puts_loop (Suc c) (putc (ucast (memory s (of_nat c))) s)"
      by (subst trap_puts_loop.simps) simp
    with "1.IH" True show ?thesis by (simp add: putc_frame)
  next
    case False
    then show ?thesis by (subst trap_puts_loop.simps) auto
  qed
qed

lemma trap_puts_loop_sim:
  "same_machine s t \<Longrightarrow> same_result (trap_puts_loop c s) (trap_puts_loop c t)"
proof (induction c s arbitrary: t rule: trap_puts_loop.induct)
  case (1 c s)
  from "1.prems" have m: "memory t = memory s" by (simp add: same_machine_def)
  show ?case
  proof (cases "\<not> MAX_MEMORY \<le> c \<and> memory s (of_nat c) \<noteq> 0")
    case True
    let ?b = "ucast (memory s (of_nat c)) :: byte"
    from True have "trap_puts_loop c s = trap_puts_loop (Suc c) (putc ?b s)"
      by (subst trap_puts_loop.simps) simp
    moreover from True m have "trap_puts_loop c t = trap_puts_loop (Suc c) (putc ?b t)"
      by (subst trap_puts_loop.simps) simp
    moreover have "same_result (trap_puts_loop (Suc c) (putc ?b s))
                               (trap_puts_loop (Suc c) (putc ?b t))"
      using True "1.prems" by (intro "1.IH") (simp_all add: putc_sim)
    ultimately show ?thesis by simp
  next
    case False
    then have "trap_puts_loop c s = (if MAX_MEMORY \<le> c then Inl (OutOfBounds, s) else Inr s)"
      by (subst trap_puts_loop.simps) auto
    moreover from False m
    have "trap_puts_loop c t = (if MAX_MEMORY \<le> c then Inl (OutOfBounds, t) else Inr t)"
      by (subst trap_puts_loop.simps) auto
    ultimately show ?thesis using "1.prems" by simp
  qed
qed

lemma putsp_cell_sim:
  "same_machine s t \<Longrightarrow>
     same_machine (if sc \<noteq> 0 then putc sc (putc fc s) else putc fc s)
                  (if sc \<noteq> 0 then putc sc (putc fc t) else putc fc t)"
  by (simp add: putc_sim)

lemma trap_putsp_loop_calls: "calls (trap_putsp_loop c s) = input_calls s"
proof (induction c s rule: trap_putsp_loop.induct)
  case (1 c s)
  let ?fc = "ucast (memory s (of_nat c) AND 0xFF) :: byte"
  let ?sc = "ucast (drop_bit 8 (memory s (of_nat c))) :: byte"
  let ?s2 = "if ?sc \<noteq> 0 then putc ?sc (putc ?fc s) else putc ?fc s"
  show ?case
  proof (cases "\<not> MAX_MEMORY \<le> c \<and> memory s (of_nat c) \<noteq> 0")
    case True
    then have "trap_putsp_loop c s = trap_putsp_loop (Suc c) ?s2"
      by (subst trap_putsp_loop.simps) (simp add: Let_def split del: if_split)
    moreover from True have "calls (trap_putsp_loop (Suc c) ?s2) = input_calls ?s2"
      by (intro "1.IH" [OF _ _ refl refl refl refl]) simp_all
    ultimately show ?thesis by (simp add: putc_frame)
  next
    case False
    then show ?thesis by (subst trap_putsp_loop.simps) auto
  qed
qed

lemma trap_putsp_loop_sim:
  "same_machine s t \<Longrightarrow> same_result (trap_putsp_loop c s) (trap_putsp_loop c t)"
proof (induction c s arbitrary: t rule: trap_putsp_loop.induct)
  case (1 c s)
  from "1.prems" have m: "memory t = memory s" by (simp add: same_machine_def)
  let ?fc = "ucast (memory s (of_nat c) AND 0xFF) :: byte"
  let ?sc = "ucast (drop_bit 8 (memory s (of_nat c))) :: byte"
  let ?s2 = "if ?sc \<noteq> 0 then putc ?sc (putc ?fc s) else putc ?fc s"
  let ?t2 = "if ?sc \<noteq> 0 then putc ?sc (putc ?fc t) else putc ?fc t"
  show ?case
  proof (cases "\<not> MAX_MEMORY \<le> c \<and> memory s (of_nat c) \<noteq> 0")
    case True
    then have "trap_putsp_loop c s = trap_putsp_loop (Suc c) ?s2"
      by (subst trap_putsp_loop.simps) (simp add: Let_def split del: if_split)
    moreover from True m have "trap_putsp_loop c t = trap_putsp_loop (Suc c) ?t2"
      by (subst trap_putsp_loop.simps) (simp add: Let_def split del: if_split)
    moreover have "same_result (trap_putsp_loop (Suc c) ?s2) (trap_putsp_loop (Suc c) ?t2)"
      using True "1.prems"
      by (intro "1.IH" [OF _ _ refl refl refl refl] putsp_cell_sim) simp_all
    ultimately show ?thesis by simp
  next
    case False
    then have "trap_putsp_loop c s = (if MAX_MEMORY \<le> c then Inl (OutOfBounds, s) else Inr s)"
      by (subst trap_putsp_loop.simps) auto
    moreover from False m
    have "trap_putsp_loop c t = (if MAX_MEMORY \<le> c then Inl (OutOfBounds, t) else Inr t)"
      by (subst trap_putsp_loop.simps) auto
    ultimately show ?thesis using "1.prems" by simp
  qed
qed

lemma trap_vector_cases:
  obtains (getc) "v = TRAP_GETC" | (out) "v = TRAP_OUT" | (puts) "v = TRAP_PUTS"
    | (inp) "v = TRAP_IN" | (putsp) "v = TRAP_PUTSP" | (halt) "v = TRAP_HALT"
    | (none) "v \<noteq> TRAP_GETC" "v \<noteq> TRAP_OUT" "v \<noteq> TRAP_PUTS"
        "v \<noteq> TRAP_IN" "v \<noteq> TRAP_PUTSP" "v \<noteq> TRAP_HALT"
  by blast

lemma op_trap_mono: "input_calls s \<le> calls (op_trap i s)"
proof (cases "i AND 0xFF" rule: trap_vector_cases)
  case getc then show ?thesis by (simp add: op_trap_def trap_getc_calls)
next
  case out then show ?thesis by (simp add: op_trap_def trap_out_calls)
next
  case puts then show ?thesis by (simp add: op_trap_def trap_puts_def trap_puts_loop_calls)
next
  case inp then show ?thesis by (simp add: op_trap_def trap_in_calls)
next
  case putsp then show ?thesis by (simp add: op_trap_def trap_putsp_def trap_putsp_loop_calls)
next
  case halt then show ?thesis by (simp add: op_trap_def trap_halt_calls)
next
  case none then show ?thesis by (simp add: op_trap_def)
qed

lemma op_trap_sim:
  assumes "same_machine s t" "calls (op_trap i s) = input_calls s"
  shows "same_result (op_trap i s) (op_trap i t) \<and> calls (op_trap i t) = input_calls t"
proof -
  let ?s1 = "s\<lparr>reg := (reg s)(R_R7 := reg s R_PC)\<rparr>"
  let ?t1 = "t\<lparr>reg := (reg t)(R_R7 := reg t R_PC)\<rparr>"
  from assms(1) have sm: "same_machine ?s1 ?t1" by (simp add: same_machine_def)
  then have r0: "reg ?t1 R_R0 = reg ?s1 R_R0" by (simp add: same_machine_def)
  show ?thesis
  proof (cases "i AND 0xFF" rule: trap_vector_cases)
    case getc with assms(2) show ?thesis by (simp add: op_trap_def trap_getc_calls)
  next
    case out with sm show ?thesis by (simp add: op_trap_def trap_out_calls trap_out_sim)
  next
    case puts
    with trap_puts_loop_sim [OF sm, of "unat (reg ?s1 R_R0)"] r0 show ?thesis
      by (simp add: op_trap_def trap_puts_def trap_puts_loop_calls)
  next
    case inp with assms(2) show ?thesis by (simp add: op_trap_def trap_in_calls)
  next
    case putsp
    with trap_putsp_loop_sim [OF sm, of "unat (reg ?s1 R_R0)"] r0 show ?thesis
      by (simp add: op_trap_def trap_putsp_def trap_putsp_loop_calls)
  next
    case halt with sm show ?thesis by (simp add: op_trap_def trap_halt_calls trap_halt_sim)
  next
    case none with sm show ?thesis by (simp add: op_trap_def)
  qed
qed

subsection \<open>One iteration and the loop\<close>

lemma opcode_cases:
  obtains (add) "v = OP_ADD" | (band) "v = OP_AND" | (bnot) "v = OP_NOT" | (br) "v = OP_BR"
    | (jmp) "v = OP_JMP" | (jsr) "v = OP_JSR" | (ld) "v = OP_LD" | (ldi) "v = OP_LDI"
    | (ldr) "v = OP_LDR" | (lea) "v = OP_LEA" | (st) "v = OP_ST" | (sti) "v = OP_STI"
    | (str) "v = OP_STR" | (trap) "v = OP_TRAP"
    | (bad) "v \<noteq> OP_ADD" "v \<noteq> OP_AND" "v \<noteq> OP_NOT" "v \<noteq> OP_BR" "v \<noteq> OP_JMP"
        "v \<noteq> OP_JSR" "v \<noteq> OP_LD" "v \<noteq> OP_LDI" "v \<noteq> OP_LDR" "v \<noteq> OP_LEA" "v \<noteq> OP_ST"
        "v \<noteq> OP_STI" "v \<noteq> OP_STR" "v \<noteq> OP_TRAP"
  by blast

lemma dispatch_mono: "input_calls s \<le> calls (dispatch i s)"
proof (cases "drop_bit 12 i" rule: opcode_cases)
  case ld then show ?thesis by (simp add: dispatch_def op_ld_mono)
next
  case ldi then show ?thesis by (simp add: dispatch_def op_ldi_mono)
next
  case ldr then show ?thesis by (simp add: dispatch_def op_ldr_mono)
next
  case sti then show ?thesis by (simp add: dispatch_def op_sti_mono)
next
  case trap then show ?thesis by (simp add: dispatch_def op_trap_mono)
qed (simp_all add: dispatch_def pure_ops_calls)

lemma dispatch_sim:
  assumes "same_machine s t" "calls (dispatch i s) = input_calls s"
  shows "same_result (dispatch i s) (dispatch i t) \<and> calls (dispatch i t) = input_calls t"
proof (cases "drop_bit 12 i" rule: opcode_cases)
  case add with assms(1) show ?thesis by (simp add: dispatch_def pure_ops_calls op_add_sim)
next
  case band with assms(1) show ?thesis by (simp add: dispatch_def pure_ops_calls op_and_sim)
next
  case bnot with assms(1) show ?thesis by (simp add: dispatch_def pure_ops_calls op_not_sim)
next
  case br with assms(1) show ?thesis by (simp add: dispatch_def pure_ops_calls op_br_sim)
next
  case jmp with assms(1) show ?thesis by (simp add: dispatch_def pure_ops_calls op_jmp_sim)
next
  case jsr with assms(1) show ?thesis by (simp add: dispatch_def pure_ops_calls op_jsr_sim)
next
  case ld with assms op_ld_sim [of s t i] show ?thesis by (simp add: dispatch_def)
next
  case ldi with assms op_ldi_sim [of s t i] show ?thesis by (simp add: dispatch_def)
next
  case ldr with assms op_ldr_sim [of s t i] show ?thesis by (simp add: dispatch_def)
next
  case lea with assms(1) show ?thesis by (simp add: dispatch_def pure_ops_calls op_lea_sim)
next
  case st with assms(1) show ?thesis by (simp add: dispatch_def pure_ops_calls op_st_sim)
next
  case sti with assms op_sti_sim [of s t i] show ?thesis by (simp add: dispatch_def)
next
  case str with assms(1) show ?thesis by (simp add: dispatch_def pure_ops_calls op_str_sim)
next
  case trap with assms op_trap_sim [of s t i] show ?thesis by (simp add: dispatch_def)
next
  case bad with assms(1) show ?thesis by (simp add: dispatch_def)
qed

lemma step_mono: "input_calls s \<le> calls (step s)"
proof -
  obtain v s1 where r: "mem_read (reg s R_PC) s = Inr (v, s1)" "input_calls s \<le> input_calls s1"
    using mem_read_returns by blast
  have "input_calls (s1\<lparr>reg := (reg s1)(R_PC := reg s1 R_PC + 1)\<rparr>)
          \<le> calls (dispatch v (s1\<lparr>reg := (reg s1)(R_PC := reg s1 R_PC + 1)\<rparr>))"
    by (rule dispatch_mono)
  with r show ?thesis by (simp add: step_def)
qed

lemma step_sim:
  assumes "same_machine s t" "calls (step s) = input_calls s"
  shows "same_result (step s) (step t) \<and> calls (step t) = input_calls t"
proof (cases "reg s R_PC = MR_KBSR")
  case True
  obtain v s1 where r: "mem_read MR_KBSR s = Inr (v, s1)" "input_calls s < input_calls s1"
    using mem_read_poll_counts by blast
  have "input_calls (s1\<lparr>reg := (reg s1)(R_PC := reg s1 R_PC + 1)\<rparr>)
          \<le> calls (dispatch v (s1\<lparr>reg := (reg s1)(R_PC := reg s1 R_PC + 1)\<rparr>))"
    by (rule dispatch_mono)
  with True r assms(2) show ?thesis by (simp add: step_def)
next
  case False
  from assms(1) have eq: "reg t = reg s" "memory t = memory s" by (simp_all add: same_machine_def)
  let ?i = "memory s (reg s R_PC)"
  let ?s1 = "s\<lparr>reg := (reg s)(R_PC := reg s R_PC + 1)\<rparr>"
  let ?t1 = "t\<lparr>reg := (reg s)(R_PC := reg s R_PC + 1)\<rparr>"
  from False have s: "step s = dispatch ?i ?s1" by (simp add: step_def mem_read_plain)
  from False eq have t: "step t = dispatch ?i ?t1" by (simp add: step_def mem_read_plain)
  from assms(1) have sm: "same_machine ?s1 ?t1" by (simp add: same_machine_def)
  from assms(2) s have "calls (dispatch ?i ?s1) = input_calls ?s1" by simp
  from dispatch_sim [OF sm this] s t show ?thesis by simp
qed

lemma run_mono: "input_calls s \<le> calls (run n s)"
proof (induction n arbitrary: s)
  case 0
  show ?case by simp
next
  case (Suc n)
  show ?case
  proof (cases "running s")
    case False then show ?thesis by simp
  next
    case True
    show ?thesis
    proof (cases "step s")
      case (Inl e)
      with True step_mono [of s] show ?thesis by simp
    next
      case (Inr s1)
      with step_mono [of s] have "input_calls s \<le> input_calls s1" by simp
      also have "\<dots> \<le> calls (run n s1)" by (rule Suc.IH)
      finally show ?thesis using True Inr by simp
    qed
  qed
qed

lemma run_sim:
  "same_machine s t \<Longrightarrow> calls (run n s) = input_calls s \<Longrightarrow>
     same_result (run n s) (run n t) \<and> calls (run n t) = input_calls t"
proof (induction n arbitrary: s t)
  case 0
  then show ?case by simp
next
  case (Suc n)
  from Suc.prems(1) have rt: "running t = running s" by (simp add: same_machine_def)
  show ?case
  proof (cases "running s")
    case False
    with rt Suc.prems(1) show ?thesis by simp
  next
    case True
    show ?thesis
    proof (cases "step s")
      case (Inl e)
      with True Suc.prems(2) have "calls (step s) = input_calls s" by simp
      from step_sim [OF Suc.prems(1) this] Inl True rt show ?thesis
        by (cases "step t") simp_all
    next
      case (Inr s1)
      with True Suc.prems(2) have q: "calls (run n s1) = input_calls s" by simp
      from Inr step_mono [of s] have "input_calls s \<le> input_calls s1" by simp
      with run_mono [of s1 n] q have c1: "input_calls s1 = input_calls s" by simp
      with Inr have "calls (step s) = input_calls s" by simp
      from step_sim [OF Suc.prems(1) this] Inr
      obtain t1 where t1: "step t = Inr t1" "same_machine s1 t1" "input_calls t1 = input_calls t"
        by (cases "step t") simp_all
      from q c1 have "calls (run n s1) = input_calls s1" by simp
      from Suc.IH [OF t1(2) this] t1 Inr True rt show ?thesis by simp
    qed
  qed
qed

lemma run_add:
  "run (k + m) s = (case run k s of Inl e \<Rightarrow> Inl e | Inr s1 \<Rightarrow> run m s1)"
proof (induction k arbitrary: s)
  case 0
  show ?case by simp
next
  case (Suc k)
  show ?case
  proof (cases "running s")
    case True
    with Suc.IH show ?thesis by (simp split: sum.splits)
  next
    case False
    then have "run m s = Inr s" by (cases m) simp_all
    with False show ?thesis by simp
  qed
qed

lemma run_prefix_quiet:
  assumes "calls (run n s) = input_calls s" "k \<le> n"
  shows "calls (run k s) = input_calls s"
proof (cases "run k s")
  case (Inl e)
  from assms(2) obtain m where n: "n = k + m" using le_Suc_ex by blast
  with Inl assms(1) show ?thesis by (simp add: run_add)
next
  case (Inr s1)
  from assms(2) obtain m where n: "n = k + m" using le_Suc_ex by blast
  with Inr assms(1) have "calls (run m s1) = input_calls s" by (simp add: run_add)
  with run_mono [of s1 m] have "input_calls s1 \<le> input_calls s" by simp
  moreover from Inr run_mono [of s k] have "input_calls s \<le> input_calls s1" by simp
  ultimately show ?thesis using Inr by simp
qed

lemma add_halt_program_run:
  "run (Suc (Suc m)) (add_halt_program inp) =
     Inr ((add_halt_program inp)\<lparr>
        reg := (\<lambda>_. 0)(R_PC := 0x3002, R_COND := FL_POS, R_R0 := 1, R_R7 := 0x3002),
        running := False, stdout := [0x48, 0x41, 0x4C, 0x54, 0x0A]\<rparr>)"
proof -
  let ?s1 = "(add_halt_program inp)\<lparr>reg := (\<lambda>_. 0)(R_PC := 0x3001, R_COND := FL_POS, R_R0 := 1)\<rparr>"
  let ?s2 = "(add_halt_program inp)\<lparr>
        reg := (\<lambda>_. 0)(R_PC := 0x3002, R_COND := FL_POS, R_R0 := 1, R_R7 := 0x3002),
        running := False, stdout := [0x48, 0x41, 0x4C, 0x54, 0x0A]\<rparr>"
  have 1: "step (add_halt_program inp) = Inr ?s1"
    by (simp add: add_halt_program_def boot_def step_def mem_read_def dispatch_def op_add_def
        sign_extend_def update_condition_flags_def fun_upd_twist)
  have 2: "step ?s1 = Inr ?s2"
    by (simp add: add_halt_program_def boot_def step_def mem_read_def dispatch_def op_trap_def
        trap_halt_def bytes_HALT putc_def fun_upd_twist)
  have r: "running (add_halt_program inp)" "running ?s1" "\<not> running ?s2"
    by (simp_all add: add_halt_program_def boot_def)
  have "run m ?s2 = Inr ?s2" using r(3) by (cases m) simp_all
  with 1 2 r show ?thesis by simp
qed

text \<open>
  Claim C9. Take two states of the same machine, whatever their pending input, and let
  the loop run \<open>n\<close> iterations from the first without a single call of an input
  primitive (no read of \<open>0xFE00\<close>, no \<open>GETC\<close>, no \<open>IN\<close>). Then after every number
  \<open>k \<le> n\<close> of iterations the two runs are in the same machine state with the same
  output, or have stopped with the same fault, and the second run has made no input
  call either.
\<close>

theorem run_deterministic_without_input:
  assumes "same_machine s t" "calls (run n s) = input_calls s" "k \<le> n"
  shows "same_result (run k s) (run k t) \<and> calls (run k t) = input_calls t"
  using assms(1) run_prefix_quiet [OF assms(2,3)] by (rule run_sim)

theorem run_deterministic_without_input_witness:
  "same_machine (add_halt_program []) (add_halt_program [0x41]) \<and>
   calls (run 3 (add_halt_program [])) = input_calls (add_halt_program []) \<and>
   (2::nat) \<le> 3 \<and>
   fd_in (add_halt_program []) \<noteq> fd_in (add_halt_program [0x41]) \<and>
   same_result (run 2 (add_halt_program [])) (run 2 (add_halt_program [0x41])) \<and>
   calls (run 2 (add_halt_program [0x41])) = input_calls (add_halt_program [0x41])"
proof -
  have h1: "same_machine (add_halt_program []) (add_halt_program [0x41])"
    by (simp add: same_machine_def add_halt_program_def boot_def)
  have h2: "calls (run 3 (add_halt_program [])) = input_calls (add_halt_program [])"
    by (simp add: numeral_3_eq_3 add_halt_program_run del: run.simps)
  have h3: "(2::nat) \<le> 3" by simp
  have h4: "fd_in (add_halt_program []) \<noteq> fd_in (add_halt_program [0x41])"
    by (simp add: add_halt_program_def boot_def)
  from run_deterministic_without_input [OF h1 h2 h3] h1 h2 h4 show ?thesis by simp
qed

end
